theory Spec2Isabelle
  imports Main "HOL-Library.AList"
begin

section \<open>The sequence container (src/lib/queue.ts)\<close>

text \<open>
  \<open>Queue<T>\<close> is a singly linked list with a head pointer, a tail pointer and a
  size counter. Its abstract content is the list of the values from head to tail; the
  counter always equals the number of nodes. \<open>dequeue\<close> answers \<open>null\<close> on an empty
  queue, which is \<open>None\<close> here.
\<close>

type_synonym 'a queue = "'a list"

definition q_enqueue :: "'a \<Rightarrow> 'a queue \<Rightarrow> 'a queue" where
  "q_enqueue v q = q @ [v]"

definition q_dequeue :: "'a queue \<Rightarrow> 'a option \<times> 'a queue" where
  "q_dequeue q = (case q of [] \<Rightarrow> (None, []) | v # rest \<Rightarrow> (Some v, rest))"

definition q_isEmpty :: "'a queue \<Rightarrow> bool" where
  "q_isEmpty q = (length q = 0)"

section \<open>The priority selector (src/lib/priority-queue.ts)\<close>

text \<open>
  An entry of the backing queue is the object \<open>{ priority, value }\<close>. Priorities are
  integers, as the data model has them. The values are compared with \<open>!==\<close>; the
  equality of the type \<open>'a\<close> stands for JavaScript's strict equality (value equality
  of primitives, reference equality of objects).
\<close>

record 'a item =
  priority :: int
  val :: 'a

text \<open>
  The local \<open>highestPriority\<close> starts at \<open>-Infinity\<close> and afterwards holds the priority
  of an entry.
\<close>

datatype bound = NegInfinity | Num int

fun exceeds :: "int \<Rightarrow> bound \<Rightarrow> bool" where
  "exceeds p NegInfinity = True"
| "exceeds p (Num h) = (h < p)"

datatype error = TypeError

definition pq_enqueue :: "'a \<Rightarrow> int \<Rightarrow> 'a item queue \<Rightarrow> 'a item queue" where
  "pq_enqueue v p q = q_enqueue \<lparr>priority = p, val = v\<rparr> q"

text \<open>
  The first loop of \<open>dequeue\<close>: it empties \<open>this.queue\<close> into \<open>tempQueue\<close> and keeps
  the first entry whose priority is strictly greater than every priority before it.
  The arguments are \<open>this.queue\<close>, \<open>highestPriority\<close>, \<open>highestPriorityItem\<close>
  and \<open>tempQueue\<close>.
\<close>

fun find_highest ::
  "'a item queue \<Rightarrow> bound \<Rightarrow> 'a item option \<Rightarrow> 'a item queue
    \<Rightarrow> 'a item option \<times> 'a item queue" where
  "find_highest [] hp hi tmp = (hi, tmp)"
| "find_highest (it # rest) hp hi tmp =
     (if exceeds (priority it) hp
      then find_highest rest (Num (priority it)) (Some it) (q_enqueue it tmp)
      else find_highest rest hp hi (q_enqueue it tmp))"

text \<open>
  The second loop of \<open>dequeue\<close>: it moves back every entry of \<open>tempQueue\<close> that
  differs from the selected one in its priority or in its value. Reading a field of
  \<open>highestPriorityItem\<close> while it is \<open>null\<close> throws a \<open>TypeError\<close>.
\<close>

fun rebuild ::
  "'a item queue \<Rightarrow> 'a item option \<Rightarrow> 'a item queue \<Rightarrow> error + 'a item queue" where
  "rebuild [] hi q = Inr q"
| "rebuild (it # rest) None q = Inl TypeError"
| "rebuild (it # rest) (Some h) q =
     (if priority it \<noteq> priority h \<or> val it \<noteq> val h
      then rebuild rest (Some h) (q_enqueue it q)
      else rebuild rest (Some h) q)"

text \<open>
  \<open>dequeue_item\<close> is \<open>dequeue\<close> up to its last line: it yields the selected entry and
  the rebuilt queue. \<open>dequeue\<close> returns the value of that entry, or \<open>null\<close>.
\<close>

definition dequeue_item ::
  "'a item queue \<Rightarrow> error + ('a item option \<times> 'a item queue)" where
  "dequeue_item q =
     (if q_isEmpty q then Inr (None, q)
      else (case find_highest q NegInfinity None [] of
              (hi, tmp) \<Rightarrow>
                (case rebuild tmp hi [] of
                   Inl e \<Rightarrow> Inl e
                 | Inr q' \<Rightarrow> Inr (hi, q'))))"

definition dequeue :: "'a item queue \<Rightarrow> error + ('a option \<times> 'a item queue)" where
  "dequeue q =
     (case dequeue_item q of
        Inl e \<Rightarrow> Inl e
      | Inr (hi, q') \<Rightarrow> Inr (map_option val hi, q'))"

text \<open>
  \<open>peek\<close>: the same scan, keeping the value only, and a second loop that moves every
  entry back. The result is the returned value and the queue afterwards.
\<close>

fun peek_highest ::
  "'a item queue \<Rightarrow> bound \<Rightarrow> 'a option \<Rightarrow> 'a item queue
    \<Rightarrow> 'a option \<times> 'a item queue" where
  "peek_highest [] hp hv tmp = (hv, tmp)"
| "peek_highest (it # rest) hp hv tmp =
     (if exceeds (priority it) hp
      then peek_highest rest (Num (priority it)) (Some (val it)) (q_enqueue it tmp)
      else peek_highest rest hp hv (q_enqueue it tmp))"

fun restore :: "'a item queue \<Rightarrow> 'a item queue \<Rightarrow> 'a item queue" where
  "restore [] q = q"
| "restore (it # rest) q = restore rest (q_enqueue it q)"

definition peek :: "'a item queue \<Rightarrow> 'a option \<times> 'a item queue" where
  "peek q =
     (if q_isEmpty q then (None, q)
      else (case peek_highest q NegInfinity None [] of
              (hv, tmp) \<Rightarrow> (hv, restore tmp [])))"

text \<open>\<open>toArray\<close> copies the entries in order and restores the queue; \<open>fromArray\<close>
  enqueues the entries of an array in order.\<close>

definition pq_toArray :: "'a item queue \<Rightarrow> 'a item list \<times> 'a item queue" where
  "pq_toArray q = (q, restore q [])"

definition pq_fromArray :: "'a item list \<Rightarrow> 'a item queue \<Rightarrow> 'a item queue" where
  "pq_fromArray arr q = foldl (\<lambda>acc it. pq_enqueue (val it) (priority it) acc) q arr"

text \<open>A sequence of \<open>enqueue(value, priority)\<close> calls on a new selector.\<close>

definition enqueue_all :: "('a \<times> int) list \<Rightarrow> 'a item queue" where
  "enqueue_all calls = foldl (\<lambda>acc (v, p). pq_enqueue v p acc) [] calls"



subsection \<open>What the scan selects\<close>

text \<open>
  \<open>pick h xs\<close> is the entry the scan holds after it has read \<open>h\<close> and then \<open>xs\<close>: a
  later entry replaces the held one only when its priority is strictly greater.
  \<open>firsts\<close> keeps the first occurrence of every element of a list.
\<close>

fun pick :: "'a item \<Rightarrow> 'a item list \<Rightarrow> 'a item" where
  "pick h [] = h"
| "pick h (x # xs) = (if priority h < priority x then pick x xs else pick h xs)"

fun firsts :: "'a list \<Rightarrow> 'a list" where
  "firsts [] = []"
| "firsts (x # xs) = x # firsts (filter (\<lambda>y. y \<noteq> x) xs)"

lemma find_highest_pick:
  "find_highest xs (Num (priority h)) (Some h) tmp = (Some (pick h xs), tmp @ xs)"
  by (induction xs arbitrary: h tmp) (simp_all add: q_enqueue_def)

lemma find_highest_start:
  "find_highest (x # xs) NegInfinity None [] = (Some (pick x xs), x # xs)"
  by (simp add: find_highest_pick q_enqueue_def)

lemma pick_split:
  "\<exists>pre post. h # xs = pre @ pick h xs # post
     \<and> (\<forall>x \<in> set pre. priority x < priority (pick h xs))
     \<and> (\<forall>x \<in> set post. priority x \<le> priority (pick h xs))"
proof (induction xs arbitrary: h)
  case Nil
  show ?case by (intro exI [of _ "[]"]) simp
next
  case (Cons x xs)
  show ?case
  proof (cases "priority h < priority x")
    case True
    from Cons.IH [of x] obtain pre post where
      d: "x # xs = pre @ pick x xs # post"
      and lo: "\<forall>y \<in> set pre. priority y < priority (pick x xs)"
      and hi: "\<forall>y \<in> set post. priority y \<le> priority (pick x xs)"
      by blast
    have "priority x \<le> priority (pick x xs)"
      using d lo by (cases pre) auto
    with True have "priority h < priority (pick x xs)" by simp
    have "h # x # xs = (h # pre) @ pick x xs # post" using d by simp
    moreover have "\<forall>y \<in> set (h # pre). priority y < priority (pick x xs)"
      using lo \<open>priority h < priority (pick x xs)\<close> by simp
    moreover have "pick h (x # xs) = pick x xs" using True by simp
    ultimately show ?thesis using hi by metis
  next
    case False
    from Cons.IH [of h] obtain pre post where
      d: "h # xs = pre @ pick h xs # post"
      and lo: "\<forall>y \<in> set pre. priority y < priority (pick h xs)"
      and hi: "\<forall>y \<in> set post. priority y \<le> priority (pick h xs)"
      by blast
    show ?thesis
    proof (cases pre)
      case Nil
      with d have e: "pick h xs = h" "post = xs" by auto
      have "h # x # xs = [] @ pick h xs # (x # xs)" using e by simp
      moreover have "\<forall>y \<in> set (x # xs). priority y \<le> priority (pick h xs)"
        using hi e False by simp
      moreover have "\<forall>y \<in> set ([] :: 'a item list). priority y < priority (pick h xs)"
        by simp
      moreover have "pick h (x # xs) = pick h xs" using False by simp
      ultimately show ?thesis by metis
    next
      case (Cons a pre')
      with d have a: "a = h" and r: "xs = pre' @ pick h xs # post" by auto
      from lo Cons a have "priority h < priority (pick h xs)" by simp
      with False have "priority x < priority (pick h xs)" by simp
      have "h # x # xs = (h # x # pre') @ pick h xs # post" using r by simp
      moreover have "\<forall>y \<in> set (h # x # pre'). priority y < priority (pick h xs)"
        using lo Cons a \<open>priority x < priority (pick h xs)\<close> by simp
      moreover have "pick h (x # xs) = pick h xs" using False by simp
      ultimately show ?thesis using hi by metis
    qed
  qed
qed

lemma pick_mem: "pick h xs \<in> set (h # xs)"
  by (induction xs arbitrary: h) (auto simp del: set_ConsD)

lemma item_neq_iff: "(priority (a :: 'a item) \<noteq> priority b \<or> val a \<noteq> val b) = (a \<noteq> b)"
  by (cases a; cases b) auto

lemma rebuild_filter:
  "rebuild tmp (Some h) q = Inr (q @ filter (\<lambda>x. x \<noteq> h) tmp)"
proof (induction tmp arbitrary: q)
  case Nil show ?case by simp
next
  case (Cons a tmp)
  show ?case using Cons.IH item_neq_iff [of a h] by (simp add: q_enqueue_def)
qed

lemma dequeue_item_Cons:
  "dequeue_item (x # xs) = Inr (Some (pick x xs), filter (\<lambda>y. y \<noteq> pick x xs) (x # xs))"
  unfolding dequeue_item_def q_isEmpty_def
  by (simp add: find_highest_start rebuild_filter del: find_highest.simps rebuild.simps)

lemma peek_highest_pick:
  "peek_highest xs (Num (priority h)) (Some (val h)) tmp = (Some (val (pick h xs)), tmp @ xs)"
  by (induction xs arbitrary: h tmp) (simp_all add: q_enqueue_def)

lemma restore_append: "restore tmp q = q @ tmp"
  by (induction tmp arbitrary: q) (simp_all add: q_enqueue_def)

lemma peek_Cons: "peek (x # xs) = (Some (val (pick x xs)), x # xs)"
  by (simp add: peek_def q_isEmpty_def peek_highest_pick restore_append q_enqueue_def)

lemma dequeue_item_Nil: "dequeue_item [] = Inr (None, [])"
  by (simp add: dequeue_item_def q_isEmpty_def)

lemma length_dequeue_item:
  "dequeue_item (x # xs) = Inr (r, q') \<Longrightarrow> length q' < length (x # xs)"
proof -
  assume a: "dequeue_item (x # xs) = Inr (r, q')"
  have "pick x xs \<in> set (x # xs)" by (rule pick_mem)
  then have "length (filter (\<lambda>y. y \<noteq> pick x xs) (x # xs)) < length (x # xs)"
    by (rule length_filter_less) simp
  with a show ?thesis by (simp only: dequeue_item_Cons sum.inject prod.inject)
qed

subsection \<open>Calling \<open>dequeue\<close> until the selector is empty\<close>

text \<open>
  \<open>drain\<close> calls \<open>dequeue\<close> while \<open>isEmpty()\<close> is false and collects the returned
  values; \<open>drain_items\<close> collects the selected entries, so that their priorities can
  be read.
\<close>

function drain_items :: "'a item queue \<Rightarrow> error + 'a item list" where
  "drain_items q =
     (if q_isEmpty q then Inr []
      else (case dequeue_item q of
              Inl e \<Rightarrow> Inl e
            | Inr (None, q') \<Rightarrow> Inr []
            | Inr (Some h, q') \<Rightarrow>
                (case drain_items q' of Inl e \<Rightarrow> Inl e | Inr hs \<Rightarrow> Inr (h # hs))))"
  by pat_completeness auto
termination
proof (relation "measure length")
  show "wf (measure length)" by simp
next
  fix q :: "'a item queue" and x2 x y x2a a
  assume "\<not> q_isEmpty q" "dequeue_item q = Inr x2" "(x, y) = x2" "x = Some x2a"
  then show "(y, q) \<in> measure length"
    by (cases q) (auto simp: q_isEmpty_def dest: length_dequeue_item)
qed


lemma length_dequeue:
  "dequeue (x # xs) = Inr (r, q') \<Longrightarrow> length q' < length (x # xs)"
  unfolding dequeue_def
  by (auto split: sum.splits dest: length_dequeue_item)

function drain :: "'a item queue \<Rightarrow> error + 'a list" where
  "drain q =
     (if q_isEmpty q then Inr []
      else (case dequeue q of
              Inl e \<Rightarrow> Inl e
            | Inr (None, q') \<Rightarrow> Inr []
            | Inr (Some v, q') \<Rightarrow>
                (case drain q' of Inl e \<Rightarrow> Inl e | Inr vs \<Rightarrow> Inr (v # vs))))"
  by pat_completeness auto
termination
proof (relation "measure length")
  show "wf (measure length)" by simp
next
  fix q :: "'a item queue" and x2 x y x2a
  assume "\<not> q_isEmpty q" "dequeue q = Inr x2" "(x, y) = x2" "x = Some x2a"
  then show "(y, q) \<in> measure length"
    by (cases q) (auto simp: q_isEmpty_def dest: length_dequeue)
qed

declare drain_items.simps [simp del] drain.simps [simp del]

text \<open>The entry that \<open>enqueue(value, priority)\<close> appends.\<close>

definition entry :: "'a \<times> int \<Rightarrow> 'a item" where
  "entry c = \<lparr>priority = snd c, val = fst c\<rparr>"

lemma drain_items_Nil: "drain_items [] = Inr []"
  by (subst drain_items.simps) (simp add: q_isEmpty_def)

lemma drain_items_Cons:
  "drain_items (x # xs) =
     (case drain_items (filter (\<lambda>y. y \<noteq> pick x xs) (x # xs)) of
        Inl e \<Rightarrow> Inl e
      | Inr hs \<Rightarrow> Inr (pick x xs # hs))"
  by (subst drain_items.simps) (simp add: q_isEmpty_def dequeue_item_Cons del: filter.simps)

lemma drain_Nil: "drain [] = Inr []"
  by (subst drain.simps) (simp add: q_isEmpty_def)

lemma drain_Cons:
  "drain (x # xs) =
     (case drain (filter (\<lambda>y. y \<noteq> pick x xs) (x # xs)) of
        Inl e \<Rightarrow> Inl e
      | Inr vs \<Rightarrow> Inr (val (pick x xs) # vs))"
  by (subst drain.simps)
     (simp add: q_isEmpty_def dequeue_def dequeue_item_Cons del: filter.simps)

lemma pick_max: "y \<in> set (x # xs) \<Longrightarrow> priority y \<le> priority (pick x xs)"
  using pick_split [of x xs] by (metis Un_iff insert_iff less_imp_le list.set(2) order_refl set_append)

lemma drain_items_spec:
  "\<exists>ys. drain_items q = Inr ys \<and> drain q = Inr (map val ys) \<and> set ys \<subseteq> set q
     \<and> sorted_wrt (\<lambda>a b. priority b \<le> priority a) ys
     \<and> (\<forall>p. filter (\<lambda>e. priority e = p) ys = firsts (filter (\<lambda>e. priority e = p) q))"
proof (induction "length q" arbitrary: q rule: less_induct)
  case less
  show ?case
  proof (cases q)
    case Nil
    then show ?thesis by (simp add: drain_items_Nil drain_Nil)
  next
    case (Cons x xs)
    define h where "h = pick x xs"
    define q' where "q' = filter (\<lambda>y. y \<noteq> h) q"
    have hq: "h \<in> set q" unfolding h_def Cons by (rule pick_mem)
    then have "length q' < length q"
      unfolding q'_def by (rule length_filter_less) simp
    from less [OF this] obtain ys where
      di: "drain_items q' = Inr ys" and dv: "drain q' = Inr (map val ys)"
      and sub: "set ys \<subseteq> set q'"
      and srt: "sorted_wrt (\<lambda>a b. priority b \<le> priority a) ys"
      and fifo: "\<forall>p. filter (\<lambda>e. priority e = p) ys = firsts (filter (\<lambda>e. priority e = p) q')"
      by blast
    have d1: "drain_items q = Inr (h # ys)"
      using di unfolding Cons q'_def h_def by (subst drain_items_Cons) simp
    have d2: "drain q = Inr (map val (h # ys))"
      using dv unfolding Cons q'_def h_def by (subst drain_Cons) simp
    have mx: "\<forall>y \<in> set q. priority y \<le> priority h"
      unfolding h_def Cons using pick_max by blast
    have s1: "set (h # ys) \<subseteq> set q" using sub hq by (auto simp: q'_def)
    have s2: "sorted_wrt (\<lambda>a b. priority b \<le> priority a) (h # ys)"
      using srt mx s1 by auto
    obtain pre post where sp: "q = pre @ h # post"
      and lo: "\<forall>y \<in> set pre. priority y < priority h"
      using pick_split [of x xs] unfolding h_def Cons by blast
    have s3: "filter (\<lambda>e. priority e = p) (h # ys) = firsts (filter (\<lambda>e. priority e = p) q)" for p
    proof (cases "p = priority h")
      case True
      have e: "filter (\<lambda>e. priority e = p) pre = []"
        using lo True by (auto simp: filter_empty_conv)
      have e': "filter (\<lambda>e. priority e = p) (filter (\<lambda>y. y \<noteq> h) pre) = []"
        using lo True by (auto simp: filter_empty_conv)
      have "filter (\<lambda>e. priority e = p) q' = filter (\<lambda>y. y \<noteq> h) (filter (\<lambda>e. priority e = p) post)"
        unfolding q'_def sp using e' by (simp add: conj_commute)
      moreover have "filter (\<lambda>e. priority e = p) q = h # filter (\<lambda>e. priority e = p) post"
        unfolding sp using e True by simp
      ultimately show ?thesis using fifo True by simp
    next
      case False
      have "filter (\<lambda>e. priority e = p) q' = filter (\<lambda>e. priority e = p) q"
        unfolding q'_def using False by (auto simp: filter_filter intro: filter_cong)
      then show ?thesis using fifo False by simp
    qed
    show ?thesis using d1 d2 s1 s2 s3 by blast
  qed
qed

lemma enqueue_all_entries: "enqueue_all calls = map entry calls"
proof -
  have "foldl (\<lambda>acc (v, p). pq_enqueue v p acc) q calls = q @ map entry calls" for q :: "'a item queue"
    by (induction calls arbitrary: q)
       (auto simp: pq_enqueue_def q_enqueue_def entry_def)
  then show ?thesis by (simp add: enqueue_all_def)
qed



text \<open>With integer priorities \<open>dequeue\<close> never throws.\<close>

lemma dequeue_total: "\<exists>r q'. dequeue q = Inr (r, q')"
  by (cases q) (simp_all add: dequeue_def dequeue_item_Nil dequeue_item_Cons del: filter.simps)

text \<open>
  When no two entries of the selector are equal, \<open>dequeue\<close> removes the selected
  entry and nothing else.
\<close>

lemma dequeue_distinct:
  assumes "distinct (x # xs)"
  shows "dequeue (x # xs) = Inr (Some (val (pick x xs)), remove1 (pick x xs) (x # xs))
    \<and> length (remove1 (pick x xs) (x # xs)) = length xs"
proof -
  have "filter (\<lambda>y. y \<noteq> h) q = removeAll h q" for h :: "'a item" and q
    by (induction q) auto
  then have "filter (\<lambda>y. y \<noteq> pick x xs) (x # xs) = removeAll (pick x xs) (x # xs)" .
  also have "\<dots> = remove1 (pick x xs) (x # xs)"
    using assms by (simp only: distinct_remove1_removeAll)
  finally have f: "filter (\<lambda>y. y \<noteq> pick x xs) (x # xs) = remove1 (pick x xs) (x # xs)" .
  have "length (remove1 (pick x xs) (x # xs)) = length (x # xs) - 1"
    using pick_mem [of x xs] by (simp only: length_remove1 if_True)
  then show ?thesis
    using f by (simp add: dequeue_def dequeue_item_Cons del: filter.simps remove1.simps)
qed

subsection \<open>Claims about the priority selector\<close>



text \<open>
  C2. \<open>dequeue\<close> on a non-empty selector should remove exactly the selected entry.
  The rebuild loop compares priority and value instead of the entry itself, so it
  drops every entry that has the priority and the value of the selected one: after
  \<open>enqueue('a', 1); enqueue('a', 1)\<close> one \<open>dequeue\<close> leaves the selector empty.
\<close>

theorem dequeue_duplicate_entries:
  "length (enqueue_all [(''a'', 1), (''a'', 1)]) = 2
   \<and> dequeue (enqueue_all [(''a'', 1), (''a'', 1)]) = Inr (Some ''a'', [])"
  by code_simp




section \<open>The job scheduler (src/lib/job-queue.wip.ts)\<close>

datatype JobQueueEvent = EMPTY | IDLE | ERROR | COMPLETED | ADDED | NEXT | PAUSED | RESUMED

text \<open>
  An error value or abort reason: \<open>Err m\<close> is \<open>new Error(m)\<close>, \<open>Thrown n\<close> is a value
  of the caller's (what a job rejects with, the reason given to \<open>abort\<close>, the reason
  of a signal). The data of an event is absent, \<open>{ id }\<close> or \<open>{ error, id }\<close>.
\<close>

datatype reason = Err string | Thrown nat

datatype payload = NoData | IdData string | ErrorData reason string

text \<open>
  Functions of the caller are opaque and are named by numbers. A listener in a listener
  array is a function of the caller, or the closure \<open>onceListener\<close> that \<open>once\<close>
  creates: it holds the event and the wrapped listener, and every call of \<open>once\<close>
  makes a new one (the first number).
\<close>

datatype listener = Fn nat | OnceListener nat JobQueueEvent nat

text \<open>
  What the scheduler does to its environment, in order: an emission that passed the
  \<open>isDestroyed\<close> test of \<open>emit\<close>, a call of a caller's listener with the data, and the
  call \<open>job({ signal })\<close> of the job with the id, the job function and the controller.
\<close>

datatype effect = Emit JobQueueEvent payload | Call nat payload | Run string nat nat

text \<open>
  The options of a pending job (\<open>Required<JobOptions>\<close>) and the object
  \<open>{ job, options }\<close> that \<open>add\<close> puts into the selector. The selector compares these
  objects with \<open>!==\<close>, by reference: \<open>ref\<close> is the reference, new for every object.
\<close>

record options =
  o_priority :: int
  o_signal :: "nat option"
  o_id :: string

record jobitem =
  ref :: nat
  job :: nat
  options :: options

record jobinfo =
  j_priority :: int
  controller :: "nat option"
  timeoutId :: "nat option"

text \<open>
  An activation of \<open>runJob\<close> that is suspended at \<open>await job(...)\<close>: its closure holds
  the options, the controller and the timeout handle.
\<close>

record activation =
  a_options :: options
  a_controller :: nat
  a_timeoutId :: "nat option"

text \<open>
  The fields of the class, and the part of the environment its methods read and write:
  the abort state of every \<open>AbortController\<close> made by \<open>runJob\<close> (a controller is its
  index), the abort state of the signals of the callers, the \<open>abort\<close> listeners that
  link a signal to a controller, the armed timeouts (handle and controller), the
  suspended activations, the counters that number new closures and objects, and the
  effects so far. \<open>o_signal = None\<close> is the signal of the
  private \<open>new AbortController()\<close> that \<open>add\<close> makes when the caller gives none; nobody
  can abort it.
\<close>

record jq =
  queue :: "jobitem item queue"
  running :: int
  isPaused :: bool
  isDestroyed :: bool
  intervalCount :: int
  intervalId :: bool
  jobMap :: "(string \<times> jobinfo) list"
  eventListeners :: "JobQueueEvent \<Rightarrow> listener list option"
  concurrency :: int
  timeout :: "int option"
  autoStart :: bool
  intervalCap :: "int option"
  interval :: "int option"
  controllers :: "reason option list"
  signals :: "nat \<Rightarrow> reason option"
  links :: "(nat \<times> nat) list"
  timers :: "(nat \<times> nat) list"
  nextTimer :: nat
  nextOnce :: nat
  nextItem :: nat
  inflight :: "activation list"
  trace :: "effect list"

record JobQueueOptions =
  opt_concurrency :: int
  opt_timeout :: "int option"
  opt_autoStart :: "bool option"
  opt_intervalCap :: "int option"
  opt_interval :: "int option"

text \<open>An optional number in a condition: \<open>undefined\<close> and \<open>0\<close> are falsy.\<close>

definition truthy :: "int option \<Rightarrow> bool" where
  "truthy x = (case x of None \<Rightarrow> False | Some n \<Rightarrow> n \<noteq> 0)"

definition setupInterval :: "jq \<Rightarrow> jq" where
  "setupInterval s = (if isDestroyed s then s else s\<lparr>intervalId := True\<rparr>)"

definition new_JobQueue :: "JobQueueOptions \<Rightarrow> jq" where
  "new_JobQueue opts =
     (let s = \<lparr>queue = [], running = 0, isPaused = False, isDestroyed = False,
                intervalCount = 0, intervalId = False, jobMap = [],
                eventListeners = (\<lambda>_. None),
                concurrency = opt_concurrency opts,
                timeout = opt_timeout opts,
                autoStart = (case opt_autoStart opts of None \<Rightarrow> True | Some b \<Rightarrow> b),
                intervalCap = opt_intervalCap opts,
                interval = opt_interval opts,
                controllers = [], signals = (\<lambda>_. None), links = [], timers = [],
                nextTimer = 0, nextOnce = 0, nextItem = 0, inflight = [],
                trace = []\<rparr>
      in if truthy (interval s) \<and> truthy (intervalCap s) then setupInterval s else s)"

subsection \<open>Listeners and emission\<close>

definition on :: "JobQueueEvent \<Rightarrow> listener \<Rightarrow> jq \<Rightarrow> jq" where
  "on ev l s =
     (if isDestroyed s then s
      else (case eventListeners s ev of
              None \<Rightarrow> s\<lparr>eventListeners := (eventListeners s)(ev := Some [l])\<rparr>
            | Some ls \<Rightarrow> s\<lparr>eventListeners := (eventListeners s)(ev := Some (ls @ [l]))\<rparr>))"

text \<open>\<open>indexOf\<close> and \<open>splice(index, 1)\<close> remove the first occurrence.\<close>

definition off :: "JobQueueEvent \<Rightarrow> listener \<Rightarrow> jq \<Rightarrow> jq" where
  "off ev l s =
     (if isDestroyed s then s
      else (case eventListeners s ev of
              None \<Rightarrow> s
            | Some ls \<Rightarrow> s\<lparr>eventListeners := (eventListeners s)(ev := Some (remove1 l ls))\<rparr>))"

definition once :: "JobQueueEvent \<Rightarrow> nat \<Rightarrow> jq \<Rightarrow> jq" where
  "once ev f s =
     (if isDestroyed s then s
      else on ev (OnceListener (nextOnce s) ev f) (s\<lparr>nextOnce := Suc (nextOnce s)\<rparr>))"

definition removeAllListeners :: "JobQueueEvent option \<Rightarrow> jq \<Rightarrow> jq" where
  "removeAllListeners evo s =
     (if isDestroyed s then s
      else (case evo of
              Some ev \<Rightarrow> s\<lparr>eventListeners := (eventListeners s)(ev := None)\<rparr>
            | None \<Rightarrow> s\<lparr>eventListeners := (\<lambda>_. None)\<rparr>))"

text \<open>
  The call \<open>listener(data)\<close>. A function of the caller observes the data; it is
  taken not to call back into the scheduler. \<open>onceListener\<close> removes itself with \<open>off\<close>
  and calls the wrapped listener.
\<close>

fun call_listener :: "listener \<Rightarrow> payload \<Rightarrow> jq \<Rightarrow> jq" where
  "call_listener (Fn f) d s = s\<lparr>trace := trace s @ [Call f d]\<rparr>"
| "call_listener (OnceListener w ev f) d s =
     (let s1 = off ev (OnceListener w ev f) s in s1\<lparr>trace := trace s1 @ [Call f d]\<rparr>)"

definition the_listeners :: "jq \<Rightarrow> JobQueueEvent \<Rightarrow> listener list" where
  "the_listeners s ev = (case eventListeners s ev of None \<Rightarrow> [] | Some ls \<Rightarrow> ls)"

lemma length_listeners_call:
  "length (the_listeners (call_listener l d s) ev) \<le> length (the_listeners s ev)"
  by (cases l) (auto simp: the_listeners_def off_def Let_def length_remove1 split: option.splits)

text \<open>
  \<open>for (const listener of listeners)\<close> walks the array by index and reads its length
  at every step, so it sees what a listener does to the array while the loop runs.
\<close>

function emit_loop :: "JobQueueEvent \<Rightarrow> payload \<Rightarrow> nat \<Rightarrow> jq \<Rightarrow> jq" where
  "emit_loop ev d i s =
     (if i < length (the_listeners s ev)
      then emit_loop ev d (Suc i) (call_listener (the_listeners s ev ! i) d s)
      else s)"
  by pat_completeness auto
termination
proof (relation "measure (\<lambda>(ev, d, i, s). length (the_listeners s ev) - i)")
  show "wf (measure (\<lambda>(ev, d, i, s). length (the_listeners s ev) - i))" by simp
next
  fix ev :: JobQueueEvent and d i s
  assume a: "i < length (the_listeners s ev)"
  have "length (the_listeners (call_listener (the_listeners s ev ! i) d s) ev) - Suc i
      < length (the_listeners s ev) - i"
    using a length_listeners_call [of "the_listeners s ev ! i" d s ev] by arith
  then show "((ev, d, Suc i, call_listener (the_listeners s ev ! i) d s), (ev, d, i, s))
      \<in> measure (\<lambda>(ev, d, i, s). length (the_listeners s ev) - i)"
    by simp
qed

declare emit_loop.simps [simp del]

definition emit :: "JobQueueEvent \<Rightarrow> payload \<Rightarrow> jq \<Rightarrow> jq" where
  "emit ev d s =
     (if isDestroyed s then s
      else (let s1 = s\<lparr>trace := trace s @ [Emit ev d]\<rparr>
            in (case eventListeners s1 ev of
                  None \<Rightarrow> s1
                | Some ls \<Rightarrow> emit_loop ev d 0 s1)))"


lemma call_listener_frame:
  "\<exists>el tr. call_listener l d s = s\<lparr>eventListeners := el, trace := tr\<rparr>"
proof (cases l)
  case (Fn f)
  have "call_listener (Fn f) d s = s\<lparr>eventListeners := eventListeners s, trace := trace s @ [Call f d]\<rparr>"
    by simp
  with Fn show ?thesis by blast
next
  case (OnceListener w ev f)
  have "off ev (OnceListener w ev f) s
      = s\<lparr>eventListeners := eventListeners (off ev (OnceListener w ev f) s)\<rparr>"
    by (simp add: off_def split: option.splits)
  then obtain el where "off ev (OnceListener w ev f) s = s\<lparr>eventListeners := el\<rparr>" ..
  then have "call_listener (OnceListener w ev f) d s = s\<lparr>eventListeners := el, trace := trace s @ [Call f d]\<rparr>"
    by (simp add: Let_def)
  with OnceListener show ?thesis by blast
qed

lemma emit_loop_frame:
  "\<exists>el tr. emit_loop ev d i s = s\<lparr>eventListeners := el, trace := tr\<rparr>"
proof (induction ev d i s rule: emit_loop.induct)
  case (1 ev d i s)
  show ?case
  proof (cases "i < length (the_listeners s ev)")
    case True
    obtain el tr where c: "call_listener (the_listeners s ev ! i) d s = s\<lparr>eventListeners := el, trace := tr\<rparr>"
      using call_listener_frame by blast
    from "1.IH" [OF True] obtain el' tr' where
      "emit_loop ev d (Suc i) (call_listener (the_listeners s ev ! i) d s)
         = (call_listener (the_listeners s ev ! i) d s)\<lparr>eventListeners := el', trace := tr'\<rparr>"
      by blast
    with c True have "emit_loop ev d i s = s\<lparr>eventListeners := el', trace := tr'\<rparr>"
      by (subst emit_loop.simps) simp
    then show ?thesis by blast
  next
    case False
    then have "emit_loop ev d i s = s\<lparr>eventListeners := eventListeners s, trace := trace s\<rparr>"
      by (subst emit_loop.simps) simp
    then show ?thesis by blast
  qed
qed

lemma emit_frame:
  "\<exists>el tr. emit ev d s = s\<lparr>eventListeners := el, trace := tr\<rparr>"
proof (cases "isDestroyed s")
  case True
  then have "emit ev d s = s\<lparr>eventListeners := eventListeners s, trace := trace s\<rparr>"
    by (simp add: emit_def)
  then show ?thesis by blast
next
  case False
  let ?s1 = "s\<lparr>trace := trace s @ [Emit ev d]\<rparr>"
  show ?thesis
  proof (cases "eventListeners s ev")
    case None
    with False have "emit ev d s = s\<lparr>eventListeners := eventListeners s, trace := trace s @ [Emit ev d]\<rparr>"
      by (simp add: emit_def)
    then show ?thesis by blast
  next
    case (Some ls)
    obtain el tr where "emit_loop ev d 0 ?s1 = ?s1\<lparr>eventListeners := el, trace := tr\<rparr>"
      using emit_loop_frame by blast
    with False Some have "emit ev d s = s\<lparr>eventListeners := el, trace := tr\<rparr>"
      by (simp add: emit_def)
    then show ?thesis by blast
  qed
qed

lemma emit_fields [simp]:
  "queue (emit ev d s) = queue s"
  "running (emit ev d s) = running s"
  "isPaused (emit ev d s) = isPaused s"
  "isDestroyed (emit ev d s) = isDestroyed s"
  "intervalCount (emit ev d s) = intervalCount s"
  "intervalId (emit ev d s) = intervalId s"
  "jobMap (emit ev d s) = jobMap s"
  "concurrency (emit ev d s) = concurrency s"
  "timeout (emit ev d s) = timeout s"
  "autoStart (emit ev d s) = autoStart s"
  "intervalCap (emit ev d s) = intervalCap s"
  "interval (emit ev d s) = interval s"
  "controllers (emit ev d s) = controllers s"
  "signals (emit ev d s) = signals s"
  "links (emit ev d s) = links s"
  "timers (emit ev d s) = timers s"
  "nextTimer (emit ev d s) = nextTimer s"
  "nextOnce (emit ev d s) = nextOnce s"
  "inflight (emit ev d s) = inflight s"
  using emit_frame [of ev d s] by auto

subsection \<open>Starting a job\<close>

text \<open>\<open>controller.abort(reason)\<close>: the first reason stays.\<close>

definition abort_controller :: "nat \<Rightarrow> reason \<Rightarrow> jq \<Rightarrow> jq" where
  "abort_controller c r s =
     (if c < length (controllers s) \<and> controllers s ! c = None
      then s\<lparr>controllers := (controllers s)[c := Some r]\<rparr> else s)"

definition signal_aborted :: "jq \<Rightarrow> nat option \<Rightarrow> bool" where
  "signal_aborted s sg = (case sg of None \<Rightarrow> False | Some k \<Rightarrow> signals s k \<noteq> None)"

definition clearTimeout :: "nat option \<Rightarrow> jq \<Rightarrow> jq" where
  "clearTimeout t s =
     (case t of None \<Rightarrow> s | Some n \<Rightarrow> s\<lparr>timers := filter (\<lambda>(h, c). h \<noteq> n) (timers s)\<rparr>)"

text \<open>
  The start of \<open>runJob\<close> up to the \<open>try\<close> block: the counter, the new controller, its
  entry in the registry, the link with the signal of the caller, and the timeout.
  The result is the state, the controller and the timeout handle.
\<close>

definition runJob_setup :: "options \<Rightarrow> jq \<Rightarrow> jq \<times> nat \<times> nat option" where
  "runJob_setup opts s =
     (let c = length (controllers s);
          s1 = s\<lparr>running := running s + 1, controllers := controllers s @ [None]\<rparr>;
          s2 = (case map_of (jobMap s1) (o_id opts) of
                  None \<Rightarrow> s1
                | Some info \<Rightarrow>
                    s1\<lparr>jobMap := AList.update (o_id opts) (info\<lparr>controller := Some c\<rparr>) (jobMap s1)\<rparr>);
          s3 = (case o_signal opts of
                  None \<Rightarrow> s2
                | Some k \<Rightarrow>
                    (case signals s2 k of
                       Some r \<Rightarrow> abort_controller c r s2
                     | None \<Rightarrow> s2\<lparr>links := links s2 @ [(k, c)]\<rparr>))
      in if truthy (timeout s3)
         then (let t = nextTimer s3;
                   s4 = s3\<lparr>timers := timers s3 @ [(t, c)], nextTimer := Suc t\<rparr>;
                   s5 = (case map_of (jobMap s4) (o_id opts) of
                           None \<Rightarrow> s4
                         | Some info \<Rightarrow>
                             s4\<lparr>jobMap := AList.update (o_id opts) (info\<lparr>timeoutId := Some t\<rparr>) (jobMap s4)\<rparr>)
               in (s5, c, Some t))
         else (s3, c, None))"

text \<open>
  \<open>runJob\<close> when it reaches \<open>await job({ signal })\<close>: after the setup it emits \<open>NEXT\<close>,
  calls the job and is suspended. A job returns a promise, as its type says: it is
  taken not to throw before it returns, and not to call the scheduler while it is
  called. Its promise settles later (\<open>settle\<close> below). This is the path \<open>runJob\<close> takes when the scheduler
  is not destroyed and the signal of the job is not aborted (\<open>runJob_await_eq\<close> below);
  the dispatch loop calls \<open>runJob\<close> only then.
\<close>

definition runJob_await :: "nat \<Rightarrow> options \<Rightarrow> jq \<Rightarrow> jq" where
  "runJob_await j opts s =
     (case runJob_setup opts s of
        (s1, c, t) \<Rightarrow>
          (let s2 = emit NEXT (IdData (o_id opts)) s1
           in s2\<lparr>trace := trace s2 @ [Run (o_id opts) j c],
                  inflight := inflight s2 @ [\<lparr>a_options = opts, a_controller = c, a_timeoutId = t\<rparr>]\<rparr>))"

lemma runJob_setup_queue [simp]: "queue (fst (runJob_setup opts s)) = queue s"
  by (simp add: runJob_setup_def Let_def abort_controller_def split: option.splits)

lemma runJob_await_queue [simp]: "queue (runJob_await j opts s) = queue s"
  using runJob_setup_queue [of opts s]
  by (cases "runJob_setup opts s") (simp add: runJob_await_def Let_def)

subsection \<open>The dispatch loop\<close>

definition loop_cond :: "jq \<Rightarrow> bool" where
  "loop_cond s =
     (\<not> isDestroyed s \<and> \<not> isPaused s \<and> running s < concurrency s
      \<and> \<not> q_isEmpty (queue s)
      \<and> (\<not> truthy (intervalCap s) \<or> intervalCount s < the (intervalCap s)))"

text \<open>
  The \<open>while\<close> loop of \<open>processNextJobs\<close>. \<open>dequeue\<close> never throws
  (\<open>dequeue_total\<close>), so its first case is never taken.
\<close>

function process_loop :: "jq \<Rightarrow> jq" where
  "process_loop s =
     (if loop_cond s
      then (case dequeue (queue s) of
              Inl e \<Rightarrow> s
            | Inr (None, q') \<Rightarrow> s\<lparr>queue := q'\<rparr>
            | Inr (Some it, q') \<Rightarrow>
                (if signal_aborted s (o_signal (options it))
                 then process_loop (emit NEXT NoData (s\<lparr>queue := q'\<rparr>))
                 else if truthy (intervalCap s)
                 then (let s2 = runJob_await (job it) (options it) (s\<lparr>queue := q'\<rparr>);
                           s3 = s2\<lparr>intervalCount := intervalCount s2 + 1\<rparr>
                       in if the (intervalCap s3) \<le> intervalCount s3 then s3 else process_loop s3)
                 else process_loop (runJob_await (job it) (options it) (s\<lparr>queue := q'\<rparr>))))
      else s)"
  by pat_completeness auto
termination
proof (relation "measure (\<lambda>s. length (queue s))")
  show "wf (measure (\<lambda>s. length (queue s)))" by simp
next
  fix s :: jq and x2 x y x2a
  assume "loop_cond s" "dequeue (queue s) = Inr x2" "(x, y) = x2" "x = Some x2a"
  then have "length y < length (queue s)"
    by (cases "queue s") (auto simp: loop_cond_def q_isEmpty_def dest: length_dequeue)
  then show "(emit NEXT NoData (s\<lparr>queue := y\<rparr>), s) \<in> measure (\<lambda>s. length (queue s))"
    and "(runJob_await (job x2a) (options x2a) (s\<lparr>queue := y\<rparr>), s) \<in> measure (\<lambda>s. length (queue s))"
    and "\<And>xa xb. xa = runJob_await (job x2a) (options x2a) (s\<lparr>queue := y\<rparr>) \<Longrightarrow>
          xb = xa\<lparr>intervalCount := intervalCount xa + 1\<rparr> \<Longrightarrow>
          (xb, s) \<in> measure (\<lambda>s. length (queue s))"
    by simp_all
qed

declare process_loop.simps [simp del]


definition processNextJobs :: "jq \<Rightarrow> jq" where
  "processNextJobs s =
     (if isDestroyed s \<or> isPaused s then s
      else if truthy (intervalCap s) \<and> the (intervalCap s) \<le> intervalCount s then s
      else (let s1 = process_loop s
            in if \<not> isDestroyed s1
               then (if q_isEmpty (queue s1)
                     then (let s2 = emit EMPTY NoData s1
                           in if running s2 = 0 then emit IDLE NoData s2 else s2)
                     else s1)
               else s1))"

subsection \<open>The end of a job\<close>

text \<open>The \<open>finally\<close> block of \<open>runJob\<close>.\<close>

definition runJob_finally :: "options \<Rightarrow> nat option \<Rightarrow> jq \<Rightarrow> jq" where
  "runJob_finally opts t s =
     (let s1 = clearTimeout t s;
          s2 = s1\<lparr>jobMap := AList.delete (o_id opts) (jobMap s1), running := running s1 - 1\<rparr>
      in if \<not> isDestroyed s2 \<and> \<not> isPaused s2 then processNextJobs s2 else s2)"

text \<open>
  How the promise of a job settles, and what \<open>runJob\<close> does when it is resumed: the
  rest of the \<open>try\<close> block or the \<open>catch\<close> block, and the \<open>finally\<close> block.
\<close>

datatype outcome = Resolved | Rejected reason

definition runJob_resume :: "activation \<Rightarrow> outcome \<Rightarrow> jq \<Rightarrow> jq" where
  "runJob_resume a out s =
     (let s1 = (case out of
                  Resolved \<Rightarrow>
                    (if \<not> isDestroyed s then emit COMPLETED (IdData (o_id (a_options a))) s else s)
                | Rejected e \<Rightarrow>
                    (if \<not> isDestroyed s then emit ERROR (ErrorData e (o_id (a_options a))) s else s))
      in runJob_finally (a_options a) (a_timeoutId a) s1)"

text \<open>
  The whole of \<open>runJob\<close>, up to its suspension or its return. With a controller that
  is aborted before the job is called, the \<open>throw\<close> leads to the \<open>catch\<close> and the
  \<open>finally\<close> block at once.
\<close>

definition runJob :: "nat \<Rightarrow> options \<Rightarrow> jq \<Rightarrow> jq" where
  "runJob j opts s =
     (if isDestroyed s then s
      else (case runJob_setup opts s of
              (s1, c, t) \<Rightarrow>
                (if isDestroyed s1
                 then runJob_finally opts t (abort_controller c (Err ''Queue destroyed'') s1)
                 else (let s2 = emit NEXT (IdData (o_id opts)) s1
                       in (case controllers s2 ! c of
                             Some r \<Rightarrow>
                               runJob_finally opts t
                                 (if \<not> isDestroyed s2
                                  then emit ERROR (ErrorData r (o_id opts)) s2 else s2)
                           | None \<Rightarrow>
                               s2\<lparr>trace := trace s2 @ [Run (o_id opts) j c],
                                    inflight := inflight s2
                                      @ [\<lparr>a_options = opts, a_controller = c, a_timeoutId = t\<rparr>]\<rparr>)))))"

subsection \<open>The public operations\<close>

record JobOptions =
  p_priority :: "int option"
  p_signal :: "nat option"
  p_id :: "string option"

text \<open>
  \<open>add\<close>. \<open>rnd\<close> is the string that \<open>Math.random().toString(36).substring(2, 9)\<close>
  yields in this call. \<open>options.id || ...\<close> and \<open>options.priority || 0\<close> replace an
  absent, empty or zero value.
\<close>

definition add :: "nat \<Rightarrow> JobOptions \<Rightarrow> string \<Rightarrow> jq \<Rightarrow> jq \<times> string" where
  "add j opts rnd s =
     (if isDestroyed s then (s, [])
      else (let i = (case p_id opts of None \<Rightarrow> rnd | Some x \<Rightarrow> if x = [] then rnd else x);
                p = (case p_priority opts of None \<Rightarrow> 0 | Some n \<Rightarrow> n);
                fullOptions = \<lparr>o_priority = p, o_signal = p_signal opts, o_id = i\<rparr>;
                s1 = s\<lparr>jobMap := AList.update i
                        \<lparr>j_priority = p, controller = None, timeoutId = None\<rparr> (jobMap s)\<rparr>;
                s2 = s1\<lparr>queue := pq_enqueue \<lparr>ref = nextItem s1, job = j, options = fullOptions\<rparr>
                                  p (queue s1),
                        nextItem := Suc (nextItem s1)\<rparr>;
                s3 = emit ADDED (IdData i) s2;
                s4 = (if autoStart s3 \<and> \<not> isPaused s3 then processNextJobs s3 else s3)
            in (s4, i)))"

definition start :: "jq \<Rightarrow> jq" where
  "start s = (if \<not> isDestroyed s \<and> \<not> isPaused s then processNextJobs s else s)"

definition pause :: "jq \<Rightarrow> jq" where
  "pause s = (if \<not> isDestroyed s then emit PAUSED NoData (s\<lparr>isPaused := True\<rparr>) else s)"

definition resume :: "jq \<Rightarrow> jq" where
  "resume s =
     (if \<not> isDestroyed s
      then processNextJobs (emit RESUMED NoData (s\<lparr>isPaused := False\<rparr>)) else s)"

definition clear :: "jq \<Rightarrow> jq" where
  "clear s =
     (if \<not> isDestroyed s
      then s\<lparr>queue := [], jobMap := filter (\<lambda>(i, info). controller info \<noteq> None) (jobMap s)\<rparr>
      else s)"

definition jq_size :: "jq \<Rightarrow> int" where
  "jq_size s = (if isDestroyed s then 0 else int (length (queue s)))"

definition active :: "jq \<Rightarrow> int" where
  "active s = (if isDestroyed s then 0 else running s)"

definition pending :: "jq \<Rightarrow> int" where
  "pending s = (if isDestroyed s then 0 else int (length (queue s)))"

text \<open>
  The loop of \<open>setPriority\<close> over \<open>queueArray\<close>: the rebuilt queue and \<open>found\<close>.
\<close>

fun reprioritize ::
  "string \<Rightarrow> int \<Rightarrow> jobitem item list \<Rightarrow> jobitem item queue \<Rightarrow> bool
    \<Rightarrow> jobitem item queue \<times> bool" where
  "reprioritize i p [] q found = (q, found)"
| "reprioritize i p (it # rest) q found =
     (if o_id (options (val it)) = i
      then reprioritize i p rest
             (pq_enqueue ((val it)\<lparr>options := (options (val it))\<lparr>o_priority := p\<rparr>\<rparr>) p q) True
      else reprioritize i p rest (pq_enqueue (val it) (priority it) q) found)"

definition setPriority :: "string \<Rightarrow> int \<Rightarrow> jq \<Rightarrow> jq \<times> bool" where
  "setPriority i p s =
     (if isDestroyed s then (s, False)
      else (case map_of (jobMap s) i of
              None \<Rightarrow> (s, False)
            | Some jobInfo \<Rightarrow>
                (if controller jobInfo \<noteq> None
                 then (s\<lparr>jobMap := AList.update i (jobInfo\<lparr>j_priority := p\<rparr>) (jobMap s)\<rparr>, True)
                 else (case pq_toArray (queue s) of
                         (queueArray, q0) \<Rightarrow>
                           (case reprioritize i p queueArray [] False of
                              (q', found) \<Rightarrow>
                                (if found
                                 then (s\<lparr>queue := q',
                                         jobMap := AList.update i
                                           \<lparr>j_priority = p, controller = None, timeoutId = None\<rparr>
                                           (jobMap s)\<rparr>, True)
                                 else (s\<lparr>queue := q'\<rparr>, False)))))))"

text \<open>The loop of \<open>abort\<close> over \<open>queueArray\<close>.\<close>

fun remove_job ::
  "string \<Rightarrow> jobitem item list \<Rightarrow> jobitem item queue \<Rightarrow> bool \<Rightarrow> jobitem item queue \<times> bool" where
  "remove_job i [] q found = (q, found)"
| "remove_job i (it # rest) q found =
     (if o_id (options (val it)) = i
      then remove_job i rest q True
      else remove_job i rest (pq_enqueue (val it) (priority it) q) found)"

text \<open>
  \<open>abort(id, reason)\<close>; an absent or falsy reason is \<open>None\<close> and is replaced by
  \<open>new Error('Manually aborted')\<close>.
\<close>

definition abort :: "string \<Rightarrow> reason option \<Rightarrow> jq \<Rightarrow> jq \<times> bool" where
  "abort i r s =
     (if isDestroyed s then (s, False)
      else (case map_of (jobMap s) i of
              None \<Rightarrow> (s, False)
            | Some jobInfo \<Rightarrow>
                (case controller jobInfo of
                   Some c \<Rightarrow>
                     (abort_controller c
                        (case r of None \<Rightarrow> Err ''Manually aborted'' | Some x \<Rightarrow> x) s, True)
                 | None \<Rightarrow>
                     (case pq_toArray (queue s) of
                        (queueArray, q0) \<Rightarrow>
                          (case remove_job i queueArray [] False of
                             (q', found) \<Rightarrow>
                               (if found
                                then (s\<lparr>queue := q', jobMap := AList.delete i (jobMap s)\<rparr>, True)
                                else (s\<lparr>queue := q'\<rparr>, False)))))))"

definition onEmpty :: "nat \<Rightarrow> jq \<Rightarrow> jq" where
  "onEmpty f s =
     (let s1 = on EMPTY (Fn f) s
      in if \<not> isDestroyed s1 \<and> q_isEmpty (queue s1)
         then s1\<lparr>trace := trace s1 @ [Call f NoData]\<rparr> else s1)"

definition onIdle :: "nat \<Rightarrow> jq \<Rightarrow> jq" where
  "onIdle f s =
     (let s1 = on IDLE (Fn f) s
      in if \<not> isDestroyed s1 \<and> q_isEmpty (queue s1) \<and> running s1 = 0
         then s1\<lparr>trace := trace s1 @ [Call f NoData]\<rparr> else s1)"

text \<open>The loop of \<open>destroy\<close> over the entries of the registry.\<close>

fun abort_all :: "(string \<times> jobinfo) list \<Rightarrow> jq \<Rightarrow> jq" where
  "abort_all [] s = s"
| "abort_all ((i, jobInfo) # rest) s =
     (let s1 = (case controller jobInfo of
                  None \<Rightarrow> s
                | Some c \<Rightarrow> abort_controller c (Err ''Queue destroyed'') s);
          s2 = clearTimeout (timeoutId jobInfo) s1
      in abort_all rest s2)"

definition destroy :: "jq \<Rightarrow> jq" where
  "destroy s =
     (if isDestroyed s then s
      else (let s1 = s\<lparr>isDestroyed := True, isPaused := True\<rparr>;
                s2 = (if intervalId s1 then s1\<lparr>intervalId := False\<rparr> else s1);
                s3 = abort_all (jobMap s2) s2
            in s3\<lparr>jobMap := [], queue := [], eventListeners := (\<lambda>_. None),
                   running := 0, intervalCount := 0\<rparr>))"

text \<open>
  A call of a public operation, and what it returns (\<open>This\<close> for the chaining
  methods).
\<close>

datatype operation =
    Add nat JobOptions string
  | Start | Pause | Resume | Clear
  | GetSize | GetActive | Pending
  | SetPriority string int
  | Abort string "reason option"
  | OnEmpty nat | OnIdle nat
  | On JobQueueEvent nat | Off JobQueueEvent nat | Once JobQueueEvent nat
  | RemoveAllListeners "JobQueueEvent option"
  | Destroy

datatype result = This | Str string | Number int | Boolean bool | Void

fun exec :: "operation \<Rightarrow> jq \<Rightarrow> jq \<times> result" where
  "exec (Add j opts rnd) s = (case add j opts rnd s of (s', i) \<Rightarrow> (s', Str i))"
| "exec Start s = (start s, This)"
| "exec Pause s = (pause s, This)"
| "exec Resume s = (resume s, This)"
| "exec Clear s = (clear s, This)"
| "exec GetSize s = (s, Number (jq_size s))"
| "exec GetActive s = (s, Number (active s))"
| "exec Pending s = (s, Number (pending s))"
| "exec (SetPriority i p) s = (case setPriority i p s of (s', b) \<Rightarrow> (s', Boolean b))"
| "exec (Abort i r) s = (case abort i r s of (s', b) \<Rightarrow> (s', Boolean b))"
| "exec (OnEmpty f) s = (onEmpty f s, This)"
| "exec (OnIdle f) s = (onIdle f s, This)"
| "exec (On ev f) s = (on ev (Fn f) s, This)"
| "exec (Off ev f) s = (off ev (Fn f) s, This)"
| "exec (Once ev f) s = (once ev f s, This)"
| "exec (RemoveAllListeners evo) s = (removeAllListeners evo s, This)"
| "exec Destroy s = (destroy s, Void)"

subsection \<open>What happens between the calls\<close>

text \<open>
  The callback of \<open>setInterval\<close>, the callback of a timeout, the abort of a signal of a
  caller (it runs the \<open>abort\<close> listeners that \<open>runJob\<close> added), and the settling of the
  promise of a running job, named by its controller.
\<close>

definition interval_tick :: "jq \<Rightarrow> jq" where
  "interval_tick s =
     (if \<not> intervalId s then s
      else if isDestroyed s then s\<lparr>intervalId := False\<rparr>
      else processNextJobs (s\<lparr>intervalCount := 0\<rparr>))"

definition timeout_fire :: "nat \<Rightarrow> jq \<Rightarrow> jq" where
  "timeout_fire t s =
     (case map_of (timers s) t of
        None \<Rightarrow> s
      | Some c \<Rightarrow>
          abort_controller c (Err ''Job timeout'')
            (s\<lparr>timers := filter (\<lambda>(h, c). h \<noteq> t) (timers s)\<rparr>))"

definition signal_abort :: "nat \<Rightarrow> reason \<Rightarrow> jq \<Rightarrow> jq" where
  "signal_abort k r s =
     (if signals s k \<noteq> None then s
      else fold (\<lambda>(k', c) acc. if k' = k then abort_controller c r acc else acc) (links s)
             (s\<lparr>signals := (signals s)(k := Some r)\<rparr>))"

definition settle :: "nat \<Rightarrow> outcome \<Rightarrow> jq \<Rightarrow> jq" where
  "settle c out s =
     (case find (\<lambda>a. a_controller a = c) (inflight s) of
        None \<Rightarrow> s
      | Some a \<Rightarrow>
          runJob_resume a out (s\<lparr>inflight := filter (\<lambda>a. a_controller a \<noteq> c) (inflight s)\<rparr>))"

datatype step =
    Op operation
  | Tick
  | TimeoutFires nat
  | SignalAborts nat reason
  | Settles nat outcome

fun do_step :: "step \<Rightarrow> jq \<Rightarrow> jq" where
  "do_step (Op c) s = fst (exec c s)"
| "do_step Tick s = interval_tick s"
| "do_step (TimeoutFires t) s = timeout_fire t s"
| "do_step (SignalAborts k r) s = signal_abort k r s"
| "do_step (Settles c out) s = settle c out s"

definition run :: "step list \<Rightarrow> jq \<Rightarrow> jq" where
  "run steps s = fold do_step steps s"


subsection \<open>What the parts of the scheduler leave unchanged\<close>

lemma abort_controller_fields [simp]:
  "queue (abort_controller c r s) = queue s"
  "running (abort_controller c r s) = running s"
  "isPaused (abort_controller c r s) = isPaused s"
  "isDestroyed (abort_controller c r s) = isDestroyed s"
  "intervalCount (abort_controller c r s) = intervalCount s"
  "intervalId (abort_controller c r s) = intervalId s"
  "jobMap (abort_controller c r s) = jobMap s"
  "eventListeners (abort_controller c r s) = eventListeners s"
  "concurrency (abort_controller c r s) = concurrency s"
  "timeout (abort_controller c r s) = timeout s"
  "autoStart (abort_controller c r s) = autoStart s"
  "intervalCap (abort_controller c r s) = intervalCap s"
  "interval (abort_controller c r s) = interval s"
  "signals (abort_controller c r s) = signals s"
  "links (abort_controller c r s) = links s"
  "timers (abort_controller c r s) = timers s"
  "nextTimer (abort_controller c r s) = nextTimer s"
  "nextOnce (abort_controller c r s) = nextOnce s"
  "inflight (abort_controller c r s) = inflight s"
  "trace (abort_controller c r s) = trace s"
  "length (controllers (abort_controller c r s)) = length (controllers s)"
  by (simp_all add: abort_controller_def)

lemma clearTimeout_fields [simp]:
  "queue (clearTimeout t s) = queue s"
  "running (clearTimeout t s) = running s"
  "isPaused (clearTimeout t s) = isPaused s"
  "isDestroyed (clearTimeout t s) = isDestroyed s"
  "intervalCount (clearTimeout t s) = intervalCount s"
  "intervalId (clearTimeout t s) = intervalId s"
  "jobMap (clearTimeout t s) = jobMap s"
  "eventListeners (clearTimeout t s) = eventListeners s"
  "concurrency (clearTimeout t s) = concurrency s"
  "timeout (clearTimeout t s) = timeout s"
  "autoStart (clearTimeout t s) = autoStart s"
  "intervalCap (clearTimeout t s) = intervalCap s"
  "interval (clearTimeout t s) = interval s"
  "controllers (clearTimeout t s) = controllers s"
  "signals (clearTimeout t s) = signals s"
  "links (clearTimeout t s) = links s"
  "nextTimer (clearTimeout t s) = nextTimer s"
  "nextOnce (clearTimeout t s) = nextOnce s"
  "inflight (clearTimeout t s) = inflight s"
  "trace (clearTimeout t s) = trace s"
  by (simp_all add: clearTimeout_def split: option.splits)

lemma runJob_setup_fields:
  assumes "runJob_setup opts s = (s1, c, t)"
  shows "queue s1 = queue s"
    and "running s1 = running s + 1"
    and "isPaused s1 = isPaused s"
    and "isDestroyed s1 = isDestroyed s"
    and "intervalCount s1 = intervalCount s"
    and "intervalId s1 = intervalId s"
    and "eventListeners s1 = eventListeners s"
    and "concurrency s1 = concurrency s"
    and "timeout s1 = timeout s"
    and "autoStart s1 = autoStart s"
    and "intervalCap s1 = intervalCap s"
    and "interval s1 = interval s"
    and "signals s1 = signals s"
    and "nextOnce s1 = nextOnce s"
    and "inflight s1 = inflight s"
    and "trace s1 = trace s"
    and "c = length (controllers s)"
    and "length (controllers s1) = Suc (length (controllers s))"
  using assms
  by (auto simp: runJob_setup_def Let_def split: option.splits if_splits)

lemma runJob_await_fields [simp]:
  "running (runJob_await j opts s) = running s + 1"
  "isPaused (runJob_await j opts s) = isPaused s"
  "isDestroyed (runJob_await j opts s) = isDestroyed s"
  "intervalCount (runJob_await j opts s) = intervalCount s"
  "intervalId (runJob_await j opts s) = intervalId s"
  "concurrency (runJob_await j opts s) = concurrency s"
  "timeout (runJob_await j opts s) = timeout s"
  "autoStart (runJob_await j opts s) = autoStart s"
  "intervalCap (runJob_await j opts s) = intervalCap s"
  "interval (runJob_await j opts s) = interval s"
  "signals (runJob_await j opts s) = signals s"
  "nextOnce (runJob_await j opts s) = nextOnce s"
  by (cases "runJob_setup opts s"; simp add: runJob_await_def Let_def runJob_setup_fields)+

text \<open>A rule for properties that hold along the dispatch loop.\<close>

lemma process_loop_rule:
  assumes init: "P s"
    and none: "\<And>s q'. P s \<Longrightarrow> loop_cond s \<Longrightarrow> dequeue (queue s) = Inr (None, q')
        \<Longrightarrow> P (s\<lparr>queue := q'\<rparr>)"
    and skip: "\<And>s it q'. P s \<Longrightarrow> loop_cond s \<Longrightarrow> dequeue (queue s) = Inr (Some it, q')
        \<Longrightarrow> signal_aborted s (o_signal (options it))
        \<Longrightarrow> P (emit NEXT NoData (s\<lparr>queue := q'\<rparr>))"
    and go: "\<And>s it q'. P s \<Longrightarrow> loop_cond s \<Longrightarrow> dequeue (queue s) = Inr (Some it, q')
        \<Longrightarrow> \<not> signal_aborted s (o_signal (options it))
        \<Longrightarrow> P (if truthy (intervalCap s)
              then (runJob_await (job it) (options it) (s\<lparr>queue := q'\<rparr>))
                     \<lparr>intervalCount := intervalCount s + 1\<rparr>
              else runJob_await (job it) (options it) (s\<lparr>queue := q'\<rparr>))"
  shows "P (process_loop s)"
  using init
proof (induction s rule: process_loop.induct)
  case (1 s)
  show ?case
  proof (cases "loop_cond s")
    case False
    then show ?thesis using "1.prems" by (subst process_loop.simps) simp
  next
    case True
    show ?thesis
    proof (cases "dequeue (queue s)")
      case (Inl e)
      then show ?thesis using True "1.prems" by (subst process_loop.simps) simp
    next
      case (Inr x)
      obtain r q' where x: "x = (r, q')" by (cases x)
      show ?thesis
      proof (cases r)
        case None
        then show ?thesis
          using True Inr x none [OF "1.prems" True] by (subst process_loop.simps) simp
      next
        case (Some it)
        note d = Inr [unfolded x Some]
        show ?thesis
        proof (cases "signal_aborted s (o_signal (options it))")
          case ab: True
          have "P (emit NEXT NoData (s\<lparr>queue := q'\<rparr>))"
            using skip [OF "1.prems" True d ab] .
          from "1.IH"(1) [OF True Inr x [symmetric] Some ab this]
          show ?thesis using True d ab by (subst process_loop.simps) simp
        next
          case nab: False
          let ?s2 = "runJob_await (job it) (options it) (s\<lparr>queue := q'\<rparr>)"
          note p2 = go [OF "1.prems" True d nab]
          show ?thesis
          proof (cases "truthy (intervalCap s)")
            case cap: True
            let ?s3 = "?s2\<lparr>intervalCount := intervalCount ?s2 + 1\<rparr>"
            have p3: "P ?s3" using p2 cap by simp
            show ?thesis
            proof (cases "the (intervalCap ?s3) \<le> intervalCount ?s3")
              case True
              then show ?thesis
                using \<open>loop_cond s\<close> d nab cap p3
                by (subst process_loop.simps) (simp add: Let_def)
            next
              case False
              from "1.IH"(2) [OF \<open>loop_cond s\<close> Inr x [symmetric] Some nab cap refl refl False p3]
              show ?thesis
                using \<open>loop_cond s\<close> d nab cap False
                by (subst process_loop.simps) (simp add: Let_def)
            qed
          next
            case ncap: False
            have "P ?s2" using p2 ncap by simp
            from "1.IH"(3) [OF True Inr x [symmetric] Some nab ncap this]
            show ?thesis using True d nab ncap by (subst process_loop.simps) simp
          qed
        qed
      qed
    qed
  qed
qed


lemma process_loop_fields [simp]:
  "isDestroyed (process_loop s) = isDestroyed s"
  "isPaused (process_loop s) = isPaused s"
  "concurrency (process_loop s) = concurrency s"
  "timeout (process_loop s) = timeout s"
  "autoStart (process_loop s) = autoStart s"
  "intervalCap (process_loop s) = intervalCap s"
  "interval (process_loop s) = interval s"
  "intervalId (process_loop s) = intervalId s"
  "signals (process_loop s) = signals s"
  "nextOnce (process_loop s) = nextOnce s"
proof -
  have "(\<lambda>t. isDestroyed t = isDestroyed s \<and> isPaused t = isPaused s
          \<and> concurrency t = concurrency s \<and> timeout t = timeout s
          \<and> autoStart t = autoStart s \<and> intervalCap t = intervalCap s
          \<and> interval t = interval s \<and> intervalId t = intervalId s
          \<and> signals t = signals s \<and> nextOnce t = nextOnce s) (process_loop s)"
    by (rule process_loop_rule) simp_all
  then show "isDestroyed (process_loop s) = isDestroyed s"
    "isPaused (process_loop s) = isPaused s"
    "concurrency (process_loop s) = concurrency s"
    "timeout (process_loop s) = timeout s"
    "autoStart (process_loop s) = autoStart s"
    "intervalCap (process_loop s) = intervalCap s"
    "interval (process_loop s) = interval s"
    "intervalId (process_loop s) = intervalId s"
    "signals (process_loop s) = signals s"
    "nextOnce (process_loop s) = nextOnce s"
    by simp_all
qed

lemma processNextJobs_fields [simp]:
  "isDestroyed (processNextJobs s) = isDestroyed s"
  "isPaused (processNextJobs s) = isPaused s"
  "concurrency (processNextJobs s) = concurrency s"
  "timeout (processNextJobs s) = timeout s"
  "autoStart (processNextJobs s) = autoStart s"
  "intervalCap (processNextJobs s) = intervalCap s"
  "interval (processNextJobs s) = interval s"
  "intervalId (processNextJobs s) = intervalId s"
  "signals (processNextJobs s) = signals s"
  "nextOnce (processNextJobs s) = nextOnce s"
  by (simp_all add: processNextJobs_def Let_def)

lemma runJob_finally_fields [simp]:
  "isDestroyed (runJob_finally opts t s) = isDestroyed s"
  "isPaused (runJob_finally opts t s) = isPaused s"
  "concurrency (runJob_finally opts t s) = concurrency s"
  "intervalCap (runJob_finally opts t s) = intervalCap s"
  "interval (runJob_finally opts t s) = interval s"
  "intervalId (runJob_finally opts t s) = intervalId s"
  by (simp_all add: runJob_finally_def Let_def)

lemma runJob_resume_fields [simp]:
  "isDestroyed (runJob_resume a out s) = isDestroyed s"
  "isPaused (runJob_resume a out s) = isPaused s"
  "concurrency (runJob_resume a out s) = concurrency s"
  "intervalCap (runJob_resume a out s) = intervalCap s"
  "interval (runJob_resume a out s) = interval s"
  "intervalId (runJob_resume a out s) = intervalId s"
  by (simp_all add: runJob_resume_def Let_def split: outcome.splits)

lemma abort_all_fields [simp]:
  "isDestroyed (abort_all jm s) = isDestroyed s"
  "isPaused (abort_all jm s) = isPaused s"
  "concurrency (abort_all jm s) = concurrency s"
  "intervalCap (abort_all jm s) = intervalCap s"
  "interval (abort_all jm s) = interval s"
  "intervalId (abort_all jm s) = intervalId s"
  "inflight (abort_all jm s) = inflight s"
  "trace (abort_all jm s) = trace s"
  by (induction jm s rule: abort_all.induct; simp add: Let_def split: option.splits)+

lemma signal_abort_fields [simp]:
  "isDestroyed (signal_abort k r s) = isDestroyed s"
  "isPaused (signal_abort k r s) = isPaused s"
  "running (signal_abort k r s) = running s"
  "queue (signal_abort k r s) = queue s"
  "concurrency (signal_abort k r s) = concurrency s"
  "intervalCap (signal_abort k r s) = intervalCap s"
  "interval (signal_abort k r s) = interval s"
  "intervalId (signal_abort k r s) = intervalId s"
  "intervalCount (signal_abort k r s) = intervalCount s"
  "inflight (signal_abort k r s) = inflight s"
  "trace (signal_abort k r s) = trace s"
proof -
  have "isDestroyed (fold (\<lambda>(k', c) acc. if k' = k then abort_controller c r acc else acc) ls t)
          = isDestroyed t
      \<and> isPaused (fold (\<lambda>(k', c) acc. if k' = k then abort_controller c r acc else acc) ls t)
          = isPaused t
      \<and> running (fold (\<lambda>(k', c) acc. if k' = k then abort_controller c r acc else acc) ls t)
          = running t
      \<and> queue (fold (\<lambda>(k', c) acc. if k' = k then abort_controller c r acc else acc) ls t)
          = queue t
      \<and> concurrency (fold (\<lambda>(k', c) acc. if k' = k then abort_controller c r acc else acc) ls t)
          = concurrency t
      \<and> intervalCap (fold (\<lambda>(k', c) acc. if k' = k then abort_controller c r acc else acc) ls t)
          = intervalCap t
      \<and> interval (fold (\<lambda>(k', c) acc. if k' = k then abort_controller c r acc else acc) ls t)
          = interval t
      \<and> intervalId (fold (\<lambda>(k', c) acc. if k' = k then abort_controller c r acc else acc) ls t)
          = intervalId t
      \<and> intervalCount (fold (\<lambda>(k', c) acc. if k' = k then abort_controller c r acc else acc) ls t)
          = intervalCount t
      \<and> inflight (fold (\<lambda>(k', c) acc. if k' = k then abort_controller c r acc else acc) ls t)
          = inflight t
      \<and> trace (fold (\<lambda>(k', c) acc. if k' = k then abort_controller c r acc else acc) ls t)
          = trace t" for ls t
    by (induction ls arbitrary: t) (simp_all split: prod.splits)
  then show "isDestroyed (signal_abort k r s) = isDestroyed s"
    "isPaused (signal_abort k r s) = isPaused s"
    "running (signal_abort k r s) = running s"
    "queue (signal_abort k r s) = queue s"
    "concurrency (signal_abort k r s) = concurrency s"
    "intervalCap (signal_abort k r s) = intervalCap s"
    "interval (signal_abort k r s) = interval s"
    "intervalId (signal_abort k r s) = intervalId s"
    "intervalCount (signal_abort k r s) = intervalCount s"
    "inflight (signal_abort k r s) = inflight s"
    "trace (signal_abort k r s) = trace s"
    by (simp_all add: signal_abort_def)
qed

lemma on_fields [simp]:
  "isDestroyed (on ev l s) = isDestroyed s"
  "isPaused (on ev l s) = isPaused s"
  "running (on ev l s) = running s"
  "queue (on ev l s) = queue s"
  "concurrency (on ev l s) = concurrency s"
  "intervalCap (on ev l s) = intervalCap s"
  "interval (on ev l s) = interval s"
  "intervalId (on ev l s) = intervalId s"
  "intervalCount (on ev l s) = intervalCount s"
  "inflight (on ev l s) = inflight s"
  "trace (on ev l s) = trace s"
  "jobMap (on ev l s) = jobMap s"
  by (simp_all add: on_def split: option.splits)

subsection \<open>A destroyed scheduler\<close>

text \<open>What an operation returns on a destroyed scheduler.\<close>

fun sentinel :: "operation \<Rightarrow> result" where
  "sentinel (Add j opts rnd) = Str []"
| "sentinel GetSize = Number 0"
| "sentinel GetActive = Number 0"
| "sentinel Pending = Number 0"
| "sentinel (SetPriority i p) = Boolean False"
| "sentinel (Abort i r) = Boolean False"
| "sentinel Destroy = Void"
| "sentinel c = This"

lemma isDestroyed_destroy [simp]: "isDestroyed (destroy s)"
  by (simp add: destroy_def Let_def)

lemma exec_destroyed: "isDestroyed s \<Longrightarrow> exec c s = (s, sentinel c)"
  by (cases c)
     (simp_all add: add_def start_def pause_def resume_def clear_def jq_size_def active_def
        pending_def setPriority_def abort_def onEmpty_def onIdle_def on_def off_def once_def
        removeAllListeners_def destroy_def)

lemma isDestroyed_do_step: "isDestroyed s \<Longrightarrow> isDestroyed (do_step st s)"
proof (cases st)
  case (Op c)
  assume "isDestroyed s"
  then show ?thesis using Op by (simp add: exec_destroyed)
next
  case Tick
  assume "isDestroyed s"
  then show ?thesis using Tick by (simp add: interval_tick_def)
next
  case (TimeoutFires t)
  assume "isDestroyed s"
  then show ?thesis using TimeoutFires by (simp add: timeout_fire_def split: option.splits)
next
  case (SignalAborts k r)
  assume "isDestroyed s"
  then show ?thesis using SignalAborts by simp
next
  case (Settles c out)
  assume "isDestroyed s"
  then show ?thesis using Settles by (simp add: settle_def split: option.splits)
qed

lemma isDestroyed_run: "isDestroyed s \<Longrightarrow> isDestroyed (run steps s)"
  unfolding run_def by (induction steps arbitrary: s) (simp_all add: isDestroyed_do_step)

text \<open>
  C5. After \<open>destroy()\<close>, and whatever happens afterwards (further calls, timers,
  signals, jobs that settle), every public operation leaves the whole state as it is,
  so it inserts nothing into the registry or the selector and emits nothing, and it
  returns its sentinel: the empty string for \<open>add\<close>, \<open>0\<close> for the counts, \<open>false\<close> for
  \<open>setPriority\<close> and \<open>abort\<close>. No operation of the model can throw.
\<close>

theorem destroyed_operations_are_noops:
  "exec c (run steps (destroy s)) = (run steps (destroy s), sentinel c)
   \<and> sentinel (Add j opts rnd) = Str []"
  by (simp add: exec_destroyed isDestroyed_run)


subsection \<open>The concurrency limit\<close>

lemma process_loop_running:
  "running s \<le> concurrency s \<Longrightarrow> running (process_loop s) \<le> concurrency s"
proof -
  assume "running s \<le> concurrency s"
  then have "(\<lambda>t. running t \<le> concurrency t \<and> concurrency t = concurrency s) (process_loop s)"
    by (rule_tac process_loop_rule) (simp_all add: loop_cond_def)
  then show ?thesis by simp
qed

lemma processNextJobs_running:
  "running s \<le> concurrency s \<Longrightarrow> running (processNextJobs s) \<le> concurrency s"
  using process_loop_running [of s] by (auto simp: processNextJobs_def Let_def)

lemma runJob_finally_running:
  "running s \<le> concurrency s \<Longrightarrow> running (runJob_finally opts t s) \<le> concurrency s"
  using processNextJobs_running
    [of "(clearTimeout t s)\<lparr>jobMap := AList.delete (o_id opts) (jobMap (clearTimeout t s)),
           running := running (clearTimeout t s) - 1\<rparr>"]
  by (simp add: runJob_finally_def Let_def)

lemma runJob_resume_running:
  "running s \<le> concurrency s \<Longrightarrow> running (runJob_resume a out s) \<le> concurrency s"
  using runJob_finally_running [of "emit COMPLETED (IdData (o_id (a_options a))) s"]
    runJob_finally_running [of s]
    runJob_finally_running [of "emit ERROR (ErrorData e (o_id (a_options a))) s" for e]
  by (simp add: runJob_resume_def Let_def split: outcome.splits)

lemma exec_running:
  assumes "0 \<le> concurrency s" "running s \<le> concurrency s"
  shows "running (fst (exec c s)) \<le> concurrency s \<and> concurrency (fst (exec c s)) = concurrency s"
proof (cases c)
  case (Add j opts rnd)
  let ?i = "case p_id opts of None \<Rightarrow> rnd | Some x \<Rightarrow> if x = [] then rnd else x"
  let ?p = "case p_priority opts of None \<Rightarrow> 0 | Some n \<Rightarrow> n"
  let ?s3 = "emit ADDED (IdData ?i)
     (s\<lparr>jobMap := AList.update ?i \<lparr>j_priority = ?p, controller = None, timeoutId = None\<rparr> (jobMap s),
        queue := pq_enqueue \<lparr>ref = nextItem s, job = j,
                    options = \<lparr>o_priority = ?p, o_signal = p_signal opts, o_id = ?i\<rparr>\<rparr>
                   ?p (queue s),
        nextItem := Suc (nextItem s)\<rparr>)"
  have "running ?s3 \<le> concurrency ?s3" using assms by simp
  from processNextJobs_running [OF this] show ?thesis
    using Add assms by (simp add: add_def Let_def)
next
  case Start
  then show ?thesis using assms processNextJobs_running [of s] by (simp add: start_def)
next
  case Pause
  then show ?thesis using assms by (simp add: pause_def)
next
  case Resume
  then show ?thesis
    using assms processNextJobs_running [of "emit RESUMED NoData (s\<lparr>isPaused := False\<rparr>)"]
    by (simp add: resume_def)
next
  case (SetPriority i p)
  then show ?thesis using assms
    by (auto simp: setPriority_def split: option.splits prod.splits)
next
  case (Abort i r)
  then show ?thesis using assms
    by (auto simp: abort_def split: option.splits prod.splits)
next
  case Destroy
  then show ?thesis using assms by (simp add: destroy_def Let_def)
qed (use assms in \<open>simp_all add: clear_def onEmpty_def onIdle_def off_def once_def
      removeAllListeners_def Let_def split: option.splits\<close>)

lemma do_step_running:
  assumes "0 \<le> concurrency s" "running s \<le> concurrency s"
  shows "running (do_step st s) \<le> concurrency s \<and> concurrency (do_step st s) = concurrency s"
proof (cases st)
  case (Op c)
  then show ?thesis using exec_running [OF assms] by simp
next
  case Tick
  then show ?thesis
    using assms processNextJobs_running [of "s\<lparr>intervalCount := 0\<rparr>"]
    by (simp add: interval_tick_def)
next
  case (TimeoutFires t)
  then show ?thesis using assms by (simp add: timeout_fire_def split: option.splits)
next
  case (SignalAborts k r)
  then show ?thesis using assms by simp
next
  case (Settles c out)
  then show ?thesis
    using assms
      runJob_resume_running [of "s\<lparr>inflight := filter (\<lambda>a. a_controller a \<noteq> c) (inflight s)\<rparr>"]
    by (simp add: settle_def split: option.splits)
qed

lemma run_running:
  "0 \<le> concurrency s \<Longrightarrow> running s \<le> concurrency s
    \<Longrightarrow> running (run steps s) \<le> concurrency s \<and> concurrency (run steps s) = concurrency s"
  unfolding run_def
proof (induction steps arbitrary: s)
  case Nil
  then show ?case by simp
next
  case (Cons st steps)
  from do_step_running [OF Cons.prems, of st]
  have a: "running (do_step st s) \<le> concurrency (do_step st s)"
    and b: "concurrency (do_step st s) = concurrency s" by simp_all
  from Cons.IH [OF _ a] Cons.prems(1) b show ?case by simp
qed

lemma new_JobQueue_fields [simp]:
  "running (new_JobQueue cfg) = 0"
  "concurrency (new_JobQueue cfg) = opt_concurrency cfg"
  "intervalCap (new_JobQueue cfg) = opt_intervalCap cfg"
  "interval (new_JobQueue cfg) = opt_interval cfg"
  "intervalCount (new_JobQueue cfg) = 0"
  "isDestroyed (new_JobQueue cfg) = False"
  "trace (new_JobQueue cfg) = []"
  "inflight (new_JobQueue cfg) = []"
  "queue (new_JobQueue cfg) = []"
  by (simp_all add: new_JobQueue_def setupInterval_def Let_def)

text \<open>
  C3. A scheduler is made with a concurrency limit that is not negative. Whatever the
  sequence of calls of public operations, timer callbacks, signal aborts and settling
  jobs, the counter \<open>running\<close> (and \<open>active\<close>, which reads it) never exceeds the limit.
\<close>

theorem running_never_exceeds_concurrency:
  assumes "0 \<le> opt_concurrency cfg"
  shows "running (run steps (new_JobQueue cfg)) \<le> opt_concurrency cfg
    \<and> active (run steps (new_JobQueue cfg)) \<le> opt_concurrency cfg
    \<and> concurrency (run steps (new_JobQueue cfg)) = opt_concurrency cfg"
  using run_running [of "new_JobQueue cfg" steps] assms
  by (simp add: active_def)


subsection \<open>Concrete schedulers\<close>

text \<open>
  \<open>limit n\<close> is the configuration \<open>{ concurrency: n }\<close>, \<open>plain\<close> the options of a job
  added without options, \<open>named i\<close> the options \<open>{ id: i }\<close>.
\<close>

definition limit :: "int \<Rightarrow> JobQueueOptions" where
  "limit n = \<lparr>opt_concurrency = n, opt_timeout = None, opt_autoStart = None,
               opt_intervalCap = None, opt_interval = None\<rparr>"

definition plain :: JobOptions where
  "plain = \<lparr>p_priority = None, p_signal = None, p_id = None\<rparr>"

definition named :: "string \<Rightarrow> JobOptions" where
  "named i = \<lparr>p_priority = None, p_signal = None, p_id = Some i\<rparr>"


theorem running_never_exceeds_concurrency_witness:
  "running (run [Op (Add 0 plain ''r0''), Op (Add 1 plain ''r1'')] (new_JobQueue (limit 1))) = 1
   \<and> running (run [Op (Add 0 plain ''r0''), Op (Add 1 plain ''r1'')] (new_JobQueue (limit 1)))
        \<le> opt_concurrency (limit 1)"
proof -
  have "running (run [Op (Add 0 plain ''r0''), Op (Add 1 plain ''r1'')] (new_JobQueue (limit 1))) = 1"
    by code_simp
  moreover have "0 \<le> opt_concurrency (limit 1)" by (simp add: limit_def)
  ultimately show ?thesis
    using running_never_exceeds_concurrency
      [of "limit 1" "[Op (Add 0 plain ''r0''), Op (Add 1 plain ''r1'')]"]
    by simp
qed

theorem destroyed_operations_are_noops_witness:
  "exec (Add 0 plain ''r0'') (run [Op (Add 1 plain ''r1'')] (destroy (new_JobQueue (limit 1))))
     = (run [Op (Add 1 plain ''r1'')] (destroy (new_JobQueue (limit 1))), Str [])"
  using destroyed_operations_are_noops
    [of "Add 0 plain ''r0''" "[Op (Add 1 plain ''r1'')]" "new_JobQueue (limit 1)"]
  by simp

subsection \<open>The path of \<open>runJob\<close> that the dispatch loop takes\<close>

lemma runJob_setup_controller:
  assumes "runJob_setup opts s = (s1, c, t)" "\<not> signal_aborted s (o_signal opts)"
  shows "controllers s1 ! c = None"
  using assms
  by (auto simp: runJob_setup_def Let_def signal_aborted_def nth_append
        split: option.splits if_splits)

lemma runJob_await_eq:
  assumes "\<not> isDestroyed s" "\<not> signal_aborted s (o_signal opts)"
  shows "runJob j opts s = runJob_await j opts s"
proof -
  obtain s1 c t where st: "runJob_setup opts s = (s1, c, t)"
    by (cases "runJob_setup opts s") auto
  have "controllers (emit NEXT (IdData (o_id opts)) s1) ! c = None"
    using runJob_setup_controller [OF st assms(2)] by simp
  then show ?thesis
    using assms(1) st runJob_setup_fields(4) [OF st]
    by (simp add: runJob_def runJob_await_def Let_def)
qed

text \<open>So the call in the dispatch loop is the call \<open>this.runJob(job, options)\<close>.\<close>

lemma dispatch_calls_runJob:
  assumes "loop_cond s" "\<not> signal_aborted s (o_signal (options it))"
  shows "runJob_await (job it) (options it) (s\<lparr>queue := q'\<rparr>)
    = runJob (job it) (options it) (s\<lparr>queue := q'\<rparr>)"
proof -
  have "\<not> isDestroyed (s\<lparr>queue := q'\<rparr>)" using assms(1) by (simp add: loop_cond_def)
  moreover have "\<not> signal_aborted (s\<lparr>queue := q'\<rparr>) (o_signal (options it))"
    using assms(2) by (simp add: signal_aborted_def split: option.splits)
  ultimately show ?thesis by (rule runJob_await_eq [symmetric])
qed

subsection \<open>What is appended to the trace\<close>

lemma call_listener_trace:
  "\<exists>f. trace (call_listener l d s) = trace s @ [Call f d]"
  by (cases l) (auto simp: off_def Let_def split: option.splits)

lemma emit_loop_trace:
  "\<exists>more. trace (emit_loop ev d i s) = trace s @ more \<and> set more \<subseteq> range (\<lambda>f. Call f d)"
proof (induction ev d i s rule: emit_loop.induct)
  case (1 ev d i s)
  show ?case
  proof (cases "i < length (the_listeners s ev)")
    case False
    then have "emit_loop ev d i s = s" by (subst emit_loop.simps) simp
    then show ?thesis by simp
  next
    case True
    let ?s1 = "call_listener (the_listeners s ev ! i) d s"
    obtain f where f: "trace ?s1 = trace s @ [Call f d]"
      using call_listener_trace by blast
    from "1.IH" [OF True] obtain more where
      m: "trace (emit_loop ev d (Suc i) ?s1) = trace ?s1 @ more"
      and r: "set more \<subseteq> range (\<lambda>f. Call f d)"
      by blast
    have "emit_loop ev d i s = emit_loop ev d (Suc i) ?s1"
      using True by (subst emit_loop.simps) simp
    then have "trace (emit_loop ev d i s) = trace s @ (Call f d # more)"
      using f m by simp
    moreover have "set (Call f d # more) \<subseteq> range (\<lambda>f. Call f d)" using r by auto
    ultimately show ?thesis by blast
  qed
qed

lemma emit_trace:
  "\<not> isDestroyed s \<Longrightarrow>
    \<exists>more. trace (emit ev d s) = trace s @ Emit ev d # more \<and> set more \<subseteq> range (\<lambda>f. Call f d)"
proof -
  assume nd: "\<not> isDestroyed s"
  let ?s1 = "s\<lparr>trace := trace s @ [Emit ev d]\<rparr>"
  show ?thesis
  proof (cases "eventListeners s ev")
    case None
    with nd have "trace (emit ev d s) = trace s @ [Emit ev d]"
      by (simp add: emit_def)
    then show ?thesis by (intro exI [of _ "[]"]) simp
  next
    case (Some ls)
    obtain more where "trace (emit_loop ev d 0 ?s1) = trace ?s1 @ more"
      and "set more \<subseteq> range (\<lambda>f. Call f d)"
      using emit_loop_trace by blast
    with nd Some have "trace (emit ev d s) = trace s @ Emit ev d # more"
      by (simp add: emit_def)
    with \<open>set more \<subseteq> range (\<lambda>f. Call f d)\<close> show ?thesis by blast
  qed
qed

lemma emit_destroyed [simp]: "isDestroyed s \<Longrightarrow> emit ev d s = s"
  by (simp add: emit_def)

lemma emit_trace_any:
  "\<exists>more. trace (emit ev d s) = trace s @ more
     \<and> set more \<subseteq> insert (Emit ev d) (range (\<lambda>f. Call f d))"
proof (cases "isDestroyed s")
  case True
  then show ?thesis by simp
next
  case False
  from emit_trace [OF this, of ev d] obtain more where
    "trace (emit ev d s) = trace s @ Emit ev d # more" "set more \<subseteq> range (\<lambda>f. Call f d)"
    by blast
  then have "trace (emit ev d s) = trace s @ (Emit ev d # more)
      \<and> set (Emit ev d # more) \<subseteq> insert (Emit ev d) (range (\<lambda>f. Call f d))"
    by auto
  then show ?thesis by blast
qed

subsection \<open>Calling \<open>pause\<close> or \<open>destroy\<close> twice\<close>




subsection \<open>A job that the dispatch loop skips\<close>

text \<open>
  C6. The registry entry of a job should be removed when the dispatch loop skips the
  job because its signal is aborted. \<open>runJob\<close> (in \<open>finally\<close>), \<open>abort\<close> and \<open>clear\<close>
  delete the entries they are done with; the skipping branch of the loop deletes
  nothing. Here the signal \<open>0\<close> is aborted, then a job is added with that signal and
  the id \<open>a\<close>: the job is dequeued and skipped, nothing runs, and the entry stays.
\<close>

theorem skipped_job_stays_in_registry:
  "queue (run [SignalAborts 0 (Thrown 0),
          Op (Add 7 \<lparr>p_priority = None, p_signal = Some 0, p_id = Some ''a''\<rparr> ''r'')]
        (new_JobQueue (limit 1))) = []
   \<and> inflight (run [SignalAborts 0 (Thrown 0),
          Op (Add 7 \<lparr>p_priority = None, p_signal = Some 0, p_id = Some ''a''\<rparr> ''r'')]
        (new_JobQueue (limit 1))) = []
   \<and> trace (run [SignalAborts 0 (Thrown 0),
          Op (Add 7 \<lparr>p_priority = None, p_signal = Some 0, p_id = Some ''a''\<rparr> ''r'')]
        (new_JobQueue (limit 1)))
     = [Emit ADDED (IdData ''a''), Emit NEXT NoData, Emit EMPTY NoData, Emit IDLE NoData]
   \<and> map_of (jobMap (run [SignalAborts 0 (Thrown 0),
          Op (Add 7 \<lparr>p_priority = None, p_signal = Some 0, p_id = Some ''a''\<rparr> ''r'')]
        (new_JobQueue (limit 1)))) ''a''
     = Some \<lparr>j_priority = 0, controller = None, timeoutId = None\<rparr>"
  by code_simp


subsection \<open>The rate window\<close>

text \<open>
  A job goes from pending to running when \<open>runJob\<close> calls it: \<open>starts s\<close> counts these
  calls in the trace.
\<close>

fun is_Run :: "effect \<Rightarrow> bool" where
  "is_Run (Run i j c) = True"
| "is_Run e = False"

definition starts :: "jq \<Rightarrow> nat" where
  "starts s = length (filter is_Run (trace s))"

lemma starts_emit [simp]: "starts (emit ev d s) = starts s"
proof -
  obtain more where m: "trace (emit ev d s) = trace s @ more"
    and r: "set more \<subseteq> insert (Emit ev d) (range (\<lambda>f. Call f d))"
    using emit_trace_any by blast
  have "filter is_Run more = []" using r by (auto simp: filter_empty_conv)
  then show ?thesis using m by (simp add: starts_def)
qed

lemma starts_runJob_await [simp]: "starts (runJob_await j opts s) = Suc (starts s)"
proof -
  obtain s1 c t where st: "runJob_setup opts s = (s1, c, t)"
    by (cases "runJob_setup opts s") auto
  have "length (filter is_Run (trace (emit NEXT (IdData (o_id opts)) s1)))
      = length (filter is_Run (trace s))"
    using starts_emit [of NEXT "IdData (o_id opts)" s1] runJob_setup_fields(16) [OF st]
    by (simp add: starts_def)
  then show ?thesis
    using st by (simp add: runJob_await_def Let_def starts_def)
qed

lemma starts_updates [simp]:
  "starts (s\<lparr>queue := q\<rparr>) = starts s"
  "starts (s\<lparr>running := n\<rparr>) = starts s"
  "starts (s\<lparr>isPaused := b\<rparr>) = starts s"
  "starts (s\<lparr>isDestroyed := b\<rparr>) = starts s"
  "starts (s\<lparr>intervalCount := n\<rparr>) = starts s"
  "starts (s\<lparr>intervalId := b\<rparr>) = starts s"
  "starts (s\<lparr>jobMap := m\<rparr>) = starts s"
  "starts (s\<lparr>eventListeners := el\<rparr>) = starts s"
  "starts (s\<lparr>inflight := fl\<rparr>) = starts s"
  "starts (s\<lparr>timers := ts\<rparr>) = starts s"
  "starts (s\<lparr>nextOnce := k\<rparr>) = starts s"
  "starts (s\<lparr>nextItem := k\<rparr>) = starts s"
  "starts (s\<lparr>trace := tr\<rparr>) = length (filter is_Run tr)"
  by (simp_all add: starts_def)

lemma starts_fold: "length (filter is_Run (trace s)) = starts s"
  by (simp add: starts_def)

text \<open>
  In a window that began when \<open>b\<close> jobs had been started, with the cap \<open>c\<close>: at most
  \<open>c\<close> more jobs have been started, and \<open>intervalCount\<close> is their number.
\<close>

definition within :: "int \<Rightarrow> nat \<Rightarrow> jq \<Rightarrow> bool" where
  "within c b s =
     (intervalCap s = Some c \<and> int (starts s) \<le> int b + c
      \<and> (\<not> isDestroyed s \<longrightarrow> int (starts s) = int b + intervalCount s))"

lemma within_same:
  assumes "within c b s" "intervalCap t = intervalCap s" "starts t = starts s"
    "isDestroyed t = isDestroyed s" "intervalCount t = intervalCount s"
  shows "within c b t"
  using assms by (simp add: within_def)

lemma within_emit: "within c b s \<Longrightarrow> within c b (emit ev d s)"
  by (erule within_same) simp_all

lemma within_process_loop:
  assumes "0 < c" "within c b s"
  shows "within c b (process_loop s)"
  using assms(2)
proof (rule process_loop_rule)
  fix s q'
  assume "within c b s"
  then show "within c b (s\<lparr>queue := q'\<rparr>)"
    by (rule within_same) simp_all
next
  fix s it q'
  assume "within c b s"
  then have "within c b (s\<lparr>queue := q'\<rparr>)"
    by (rule within_same) simp_all
  then show "within c b (emit NEXT NoData (s\<lparr>queue := q'\<rparr>))"
    by (rule within_emit)
next
  fix s it q'
  assume w: "within c b s" and l: "loop_cond s"
  have cap: "intervalCap s = Some c" using w by (simp add: within_def)
  then have tr: "truthy (intervalCap s)" using assms(1) by (simp add: truthy_def)
  have nd: "\<not> isDestroyed s" and lt: "intervalCount s < c"
    using l cap tr by (auto simp: loop_cond_def)
  have eq: "int (starts s) = int b + intervalCount s" using w nd by (simp add: within_def)
  have "within c b ((runJob_await (job it) (options it) (s\<lparr>queue := q'\<rparr>))
          \<lparr>intervalCount := intervalCount s + 1\<rparr>)"
    using cap eq lt by (simp add: within_def)
  then show "within c b (if truthy (intervalCap s)
      then (runJob_await (job it) (options it) (s\<lparr>queue := q'\<rparr>))
             \<lparr>intervalCount := intervalCount s + 1\<rparr>
      else runJob_await (job it) (options it) (s\<lparr>queue := q'\<rparr>))"
    using tr by simp
qed


lemma destroy_fields [simp]:
  "trace (destroy s) = trace s"
  "intervalCap (destroy s) = intervalCap s"
  "interval (destroy s) = interval s"
  "concurrency (destroy s) = concurrency s"
  by (simp_all add: destroy_def Let_def)

lemma starts_same_trace [simp]:
  "starts (destroy s) = starts s"
  "starts (clearTimeout t s) = starts s"
  "starts (abort_controller k r s) = starts s"
  "starts (signal_abort n r s) = starts s"
  "starts (on ev l s) = starts s"
  "starts (abort_all jm s) = starts s"
  by (simp_all add: starts_def)

lemma within_processNextJobs:
  assumes "0 < c" "within c b s"
  shows "within c b (processNextJobs s)"
proof -
  have "within c b (process_loop s)" using assms by (rule within_process_loop)
  then show ?thesis
    using assms(2) by (simp add: processNextJobs_def Let_def within_emit)
qed

lemma within_runJob_finally:
  assumes "0 < c" "within c b s"
  shows "within c b (runJob_finally opts t s)"
proof -
  let ?s2 = "(clearTimeout t s)\<lparr>jobMap := AList.delete (o_id opts) (jobMap (clearTimeout t s)),
      running := running (clearTimeout t s) - 1\<rparr>"
  have w: "within c b ?s2" using assms(2) by (rule within_same) simp_all
  then have "within c b (processNextJobs ?s2)" using assms(1) by (simp add: within_processNextJobs)
  with w show ?thesis by (simp add: runJob_finally_def Let_def)
qed

lemma within_runJob_resume:
  assumes "0 < c" "within c b s"
  shows "within c b (runJob_resume a out s)"
  using assms
  by (auto simp: runJob_resume_def Let_def within_emit within_runJob_finally split: outcome.splits)

lemma within_exec:
  assumes "0 < c" "within c b s"
  shows "within c b (fst (exec x s))"
proof (cases "isDestroyed s")
  case True
  then show ?thesis using assms(2) by (simp add: exec_destroyed)
next
  case False
  show ?thesis
  proof (cases x)
    case (Add j opts rnd)
    let ?i = "case p_id opts of None \<Rightarrow> rnd | Some x \<Rightarrow> if x = [] then rnd else x"
    let ?p = "case p_priority opts of None \<Rightarrow> 0 | Some n \<Rightarrow> n"
    let ?s2 = "s\<lparr>jobMap := AList.update ?i \<lparr>j_priority = ?p, controller = None, timeoutId = None\<rparr> (jobMap s),
        queue := pq_enqueue \<lparr>ref = nextItem s, job = j,
                    options = \<lparr>o_priority = ?p, o_signal = p_signal opts, o_id = ?i\<rparr>\<rparr>
                   ?p (queue s),
        nextItem := Suc (nextItem s)\<rparr>"
    have "within c b ?s2" using assms(2) by (rule within_same) simp_all
    then have w3: "within c b (emit ADDED (IdData ?i) ?s2)" by (rule within_emit)
    then have "within c b (processNextJobs (emit ADDED (IdData ?i) ?s2))"
      using assms(1) by (simp add: within_processNextJobs)
    with w3 show ?thesis using Add False by (simp add: add_def Let_def)
  next
    case Start
    then show ?thesis using assms by (simp add: start_def within_processNextJobs)
  next
    case Pause
    have "within c b (s\<lparr>isPaused := True\<rparr>)" using assms(2) by (rule within_same) simp_all
    then show ?thesis using Pause False by (simp add: pause_def within_emit)
  next
    case Resume
    have "within c b (s\<lparr>isPaused := False\<rparr>)" using assms(2) by (rule within_same) simp_all
    then have "within c b (emit RESUMED NoData (s\<lparr>isPaused := False\<rparr>))" by (rule within_emit)
    then show ?thesis using Resume False assms(1) by (simp add: resume_def within_processNextJobs)
  next
    case Clear
    have "within c b (clear s)" using assms(2) by (rule within_same) (simp_all add: clear_def)
    then show ?thesis using Clear by simp
  next
    case (SetPriority i p)
    have "within c b (fst (setPriority i p s))"
      using assms(2)
      by (rule within_same) (auto simp: setPriority_def split: option.splits prod.splits)
    then show ?thesis using SetPriority by (simp add: case_prod_beta)
  next
    case (Abort i r)
    have "within c b (fst (abort i r s))"
      using assms(2)
      by (rule within_same) (auto simp: abort_def split: option.splits prod.splits)
    then show ?thesis using Abort by (simp add: case_prod_beta)
  next
    case (OnEmpty f)
    have "within c b (onEmpty f s)"
      using assms(2) by (rule within_same) (simp_all add: onEmpty_def Let_def starts_fold)
    then show ?thesis using OnEmpty by simp
  next
    case (OnIdle f)
    have "within c b (onIdle f s)"
      using assms(2) by (rule within_same) (simp_all add: onIdle_def Let_def starts_fold)
    then show ?thesis using OnIdle by simp
  next
    case (On ev f)
    have "within c b (on ev (Fn f) s)" using assms(2) by (rule within_same) simp_all
    then show ?thesis using On by simp
  next
    case (Off ev f)
    have "within c b (off ev (Fn f) s)"
      using assms(2) by (rule within_same) (simp_all add: off_def split: option.splits)
    then show ?thesis using Off by simp
  next
    case (Once ev f)
    have "within c b (once ev f s)"
      using assms(2) by (rule within_same) (simp_all add: once_def)
    then show ?thesis using Once by simp
  next
    case (RemoveAllListeners evo)
    have "within c b (removeAllListeners evo s)"
      using assms(2)
      by (rule within_same) (simp_all add: removeAllListeners_def split: option.splits)
    then show ?thesis using RemoveAllListeners by simp
  next
    case Destroy
    then show ?thesis using assms(2) by (simp add: within_def)
  qed (use assms in simp_all)
qed

lemma within_do_step:
  assumes "0 < c" "st \<noteq> Tick" "within c b s"
  shows "within c b (do_step st s)"
proof (cases st)
  case (Op x)
  then show ?thesis using within_exec [OF assms(1,3)] by simp
next
  case Tick
  then show ?thesis using assms(2) by simp
next
  case (TimeoutFires t)
  have "within c b (timeout_fire t s)"
    using assms(3) by (rule within_same) (simp_all add: timeout_fire_def split: option.splits)
  then show ?thesis using TimeoutFires by simp
next
  case (SignalAborts k r)
  have "within c b (signal_abort k r s)" using assms(3) by (rule within_same) simp_all
  then show ?thesis using SignalAborts by simp
next
  case (Settles k out)
  show ?thesis
  proof (cases "find (\<lambda>a. a_controller a = k) (inflight s)")
    case None
    then show ?thesis using Settles assms(3) by (simp add: settle_def)
  next
    case (Some a)
    have "within c b (s\<lparr>inflight := filter (\<lambda>a. a_controller a \<noteq> k) (inflight s)\<rparr>)"
      using assms(3) by (rule within_same) simp_all
    then show ?thesis
      using Settles Some assms(1) by (simp add: settle_def within_runJob_resume)
  qed
qed

lemma within_run:
  "0 < c \<Longrightarrow> Tick \<notin> set w \<Longrightarrow> within c b s \<Longrightarrow> within c b (run w s)"
  unfolding run_def
  by (induction w arbitrary: s) (auto simp: within_do_step)

text \<open>The timer of the rate window runs until the scheduler is destroyed.\<close>

definition armed :: "jq \<Rightarrow> bool" where
  "armed s = (intervalId s \<or> isDestroyed s)"

lemma armed_exec: "armed s \<Longrightarrow> armed (fst (exec x s))"
proof (cases "isDestroyed s")
  case True
  assume "armed s"
  then show ?thesis using True by (simp add: exec_destroyed)
next
  case False
  assume "armed s"
  then have i: "intervalId s" using False by (simp add: armed_def)
  show ?thesis
    using i
    by (cases x)
       (auto simp: armed_def add_def start_def pause_def resume_def clear_def setPriority_def
          abort_def onEmpty_def onIdle_def off_def once_def removeAllListeners_def
          destroy_def Let_def split: option.splits prod.splits)
qed

lemma frame_exec:
  "intervalCap (fst (exec x s)) = intervalCap s"
proof (cases "isDestroyed s")
  case True
  then show ?thesis by (simp add: exec_destroyed)
next
  case False
  show ?thesis
    by (cases x)
       (auto simp: add_def start_def pause_def resume_def clear_def setPriority_def
          abort_def onEmpty_def onIdle_def off_def once_def removeAllListeners_def
          Let_def split: option.splits prod.splits)
qed

lemma frame_do_step:
  "intervalCap (do_step st s) = intervalCap s"
  "armed s \<Longrightarrow> armed (do_step st s)"
proof -
  show "intervalCap (do_step st s) = intervalCap s"
    by (cases st)
       (simp_all add: frame_exec interval_tick_def timeout_fire_def settle_def
          split: option.splits)
  show "armed s \<Longrightarrow> armed (do_step st s)"
    using armed_exec [of s]
    by (cases st)
       (auto simp: armed_def interval_tick_def timeout_fire_def settle_def
          split: option.splits)
qed

lemma frame_run:
  "intervalCap (run w s) = intervalCap s"
  "armed s \<Longrightarrow> armed (run w s)"
  unfolding run_def
  by (induction w arbitrary: s) (simp_all add: frame_do_step)

lemma within_tick:
  assumes "0 < c" "intervalCap s = Some c" "armed s"
  shows "within c (starts s) (interval_tick s)"
proof (cases "isDestroyed s")
  case True
  then show ?thesis using assms by (simp add: interval_tick_def within_def)
next
  case False
  then have i: "intervalId s" using assms(3) by (simp add: armed_def)
  have "within c (starts s) (s\<lparr>intervalCount := 0\<rparr>)"
    using assms(1,2) by (simp add: within_def)
  then show ?thesis
    using i False assms(1) by (simp add: interval_tick_def within_processNextJobs)
qed

lemma run_append_Tick: "run (pre @ Tick # w) s = run w (do_step Tick (run pre s))"
  by (simp add: run_def)



text \<open>
  A scheduler with the concurrency limit 5, the cap 1 and the period 1000. The signal
  \<open>0\<close> is aborted; a job with that signal is added and skipped; of two more jobs the
  first is started and the second waits for the next window.
\<close>

definition rated :: JobQueueOptions where
  "rated = \<lparr>opt_concurrency = 5, opt_timeout = None, opt_autoStart = None,
             opt_intervalCap = Some 1, opt_interval = Some 1000\<rparr>"

definition burst :: "step list" where
  "burst = [SignalAborts 0 (Thrown 0),
            Op (Add 0 \<lparr>p_priority = None, p_signal = Some 0, p_id = None\<rparr> ''r0''),
            Op (Add 1 plain ''r1''), Op (Add 2 plain ''r2'')]"




subsection \<open>Aborting a pending job\<close>

text \<open>
  The job id that an effect carries: the id in the data of an emission or of a call of
  a listener, and the id of the job that is called.
\<close>

fun payload_id :: "payload \<Rightarrow> string option" where
  "payload_id NoData = None"
| "payload_id (IdData i) = Some i"
| "payload_id (ErrorData r i) = Some i"

fun about :: "string \<Rightarrow> effect \<Rightarrow> bool" where
  "about i (Emit ev d) = (payload_id d = Some i)"
| "about i (Call f d) = (payload_id d = Some i)"
| "about i (Run x j c) = (x = i)"

text \<open>
  The ids of the jobs in the selector and of the suspended activations; the id that
  \<open>add\<close> gives to a job; a step that adds a job under the id \<open>i\<close>.
\<close>

definition job_ids :: "jobitem item list \<Rightarrow> string set" where
  "job_ids q = (\<lambda>it. o_id (options (val it))) ` set q"

definition running_ids :: "activation list \<Rightarrow> string set" where
  "running_ids fl = (\<lambda>a. o_id (a_options a)) ` set fl"

definition add_id :: "JobOptions \<Rightarrow> string \<Rightarrow> string" where
  "add_id opts rnd = (case p_id opts of None \<Rightarrow> rnd | Some x \<Rightarrow> if x = [] then rnd else x)"

fun adds :: "string \<Rightarrow> step \<Rightarrow> bool" where
  "adds i (Op (Add j opts rnd)) = (add_id opts rnd = i)"
| "adds i st = False"

text \<open>
  \<open>silent i tr0 tr\<close>: the trace \<open>tr\<close> continues \<open>tr0\<close> with effects that do not carry
  the id \<open>i\<close>. \<open>gone i tr0 s\<close>: no job with the id \<open>i\<close> is pending or running in \<open>s\<close>,
  and since the trace \<open>tr0\<close> nothing has happened under that id.
\<close>

definition silent :: "string \<Rightarrow> effect list \<Rightarrow> effect list \<Rightarrow> bool" where
  "silent i tr0 tr = (\<exists>more. tr = tr0 @ more \<and> (\<forall>e \<in> set more. \<not> about i e))"

definition gone :: "string \<Rightarrow> effect list \<Rightarrow> jq \<Rightarrow> bool" where
  "gone i tr0 s =
     (i \<notin> job_ids (queue s) \<and> i \<notin> running_ids (inflight s) \<and> silent i tr0 (trace s))"

lemma silent_refl: "silent i tr tr"
  by (simp add: silent_def)

lemma silent_append:
  "silent i tr0 tr \<Longrightarrow> \<forall>e \<in> set ext. \<not> about i e \<Longrightarrow> silent i tr0 (tr @ ext)"
  unfolding silent_def by (metis Un_iff append.assoc set_append)

lemma gone_weaken:
  assumes "gone i tr0 s" "job_ids (queue t) \<subseteq> job_ids (queue s)"
    "running_ids (inflight t) \<subseteq> running_ids (inflight s)" "trace t = trace s"
  shows "gone i tr0 t"
  using assms unfolding gone_def by auto

lemma gone_emit:
  assumes "gone i tr0 s" "payload_id d \<noteq> Some i"
  shows "gone i tr0 (emit ev d s)"
proof -
  obtain more where m: "trace (emit ev d s) = trace s @ more"
    and r: "set more \<subseteq> insert (Emit ev d) (range (\<lambda>f. Call f d))"
    using emit_trace_any by blast
  have "\<forall>e \<in> set more. \<not> about i e" using r assms(2) by auto
  then have "silent i tr0 (trace (emit ev d s))"
    using assms(1) m by (simp add: gone_def silent_append)
  then show ?thesis using assms(1) by (simp add: gone_def)
qed

lemma runJob_await_effects:
  "\<exists>more c t. trace (runJob_await j opts s) = trace s @ more
     \<and> (\<forall>e \<in> set more. about i e \<longrightarrow> o_id opts = i)
     \<and> inflight (runJob_await j opts s)
         = inflight s @ [\<lparr>a_options = opts, a_controller = c, a_timeoutId = t\<rparr>]"
proof -
  obtain s1 c t where st: "runJob_setup opts s = (s1, c, t)"
    by (cases "runJob_setup opts s") auto
  let ?s2 = "emit NEXT (IdData (o_id opts)) s1"
  obtain more where m: "trace ?s2 = trace s1 @ more"
    and r: "set more \<subseteq> insert (Emit NEXT (IdData (o_id opts))) (range (\<lambda>f. Call f (IdData (o_id opts))))"
    using emit_trace_any by blast
  have a: "trace (runJob_await j opts s) = trace s @ (more @ [Run (o_id opts) j c])"
    using st m runJob_setup_fields(16) [OF st] by (simp add: runJob_await_def Let_def)
  have b: "\<forall>e \<in> set (more @ [Run (o_id opts) j c]). about i e \<longrightarrow> o_id opts = i"
    using r by auto
  have c: "inflight (runJob_await j opts s)
      = inflight s @ [\<lparr>a_options = opts, a_controller = c, a_timeoutId = t\<rparr>]"
    using st runJob_setup_fields(15) [OF st] by (simp add: runJob_await_def Let_def)
  from a b c show ?thesis by blast
qed

lemma gone_runJob_await:
  assumes "gone i tr0 s" "o_id opts \<noteq> i"
  shows "gone i tr0 (runJob_await j opts s)"
proof -
  obtain more c t where m: "trace (runJob_await j opts s) = trace s @ more"
    and r: "\<forall>e \<in> set more. about i e \<longrightarrow> o_id opts = i"
    and f: "inflight (runJob_await j opts s)
         = inflight s @ [\<lparr>a_options = opts, a_controller = c, a_timeoutId = t\<rparr>]"
    using runJob_await_effects by blast
  have "\<forall>e \<in> set more. \<not> about i e" using r assms(2) by blast
  then have "silent i tr0 (trace (runJob_await j opts s))"
    using assms(1) m by (simp add: gone_def silent_append)
  moreover have "i \<notin> running_ids (inflight (runJob_await j opts s))"
    using assms f by (simp add: gone_def running_ids_def)
  ultimately show ?thesis using assms(1) by (simp add: gone_def)
qed

lemma dequeue_Some:
  assumes "dequeue q = Inr (Some v, q')"
  shows "v \<in> val ` set q \<and> set q' \<subseteq> set q"
proof (cases q)
  case Nil
  then show ?thesis using assms by (simp add: dequeue_def dequeue_item_Nil)
next
  case (Cons x xs)
  have m: "pick x xs \<in> set (x # xs)" by (rule pick_mem)
  have e: "v = val (pick x xs)" "q' = filter (\<lambda>y. y \<noteq> pick x xs) (x # xs)"
    using assms Cons by (simp_all add: dequeue_def dequeue_item_Cons del: filter.simps)
  have "set q' \<subseteq> set (x # xs)" unfolding e by (rule filter_is_subset)
  moreover have "v \<in> val ` set (x # xs)" unfolding e using m by (rule imageI)
  ultimately show ?thesis using Cons by simp
qed

lemma dequeue_None:
  assumes "dequeue q = Inr (None, q')"
  shows "set q' \<subseteq> set q"
  using assms by (cases q) (simp_all add: dequeue_def dequeue_item_Nil dequeue_item_Cons)

lemma job_ids_mono: "set q' \<subseteq> set q \<Longrightarrow> job_ids q' \<subseteq> job_ids q"
  by (auto simp: job_ids_def)

lemma gone_process_loop:
  assumes "gone i tr0 s"
  shows "gone i tr0 (process_loop s)"
  using assms
proof (rule process_loop_rule)
  fix s q'
  assume g: "gone i tr0 s" and d: "dequeue (queue s) = Inr (None, q')"
  show "gone i tr0 (s\<lparr>queue := q'\<rparr>)"
    using g by (rule gone_weaken) (simp_all add: job_ids_mono dequeue_None [OF d])
next
  fix s it q'
  assume g: "gone i tr0 s" and d: "dequeue (queue s) = Inr (Some it, q')"
  have "gone i tr0 (s\<lparr>queue := q'\<rparr>)"
    using g by (rule gone_weaken) (simp_all add: job_ids_mono dequeue_Some [OF d])
  then show "gone i tr0 (emit NEXT NoData (s\<lparr>queue := q'\<rparr>))"
    by (rule gone_emit) simp
next
  fix s it q'
  assume g: "gone i tr0 s" and d: "dequeue (queue s) = Inr (Some it, q')"
  have g1: "gone i tr0 (s\<lparr>queue := q'\<rparr>)"
    using g by (rule gone_weaken) (simp_all add: job_ids_mono dequeue_Some [OF d])
  have "o_id (options it) \<in> job_ids (queue s)"
    using dequeue_Some [OF d] by (auto simp: job_ids_def)
  then have "o_id (options it) \<noteq> i" using g by (auto simp: gone_def)
  with g1 have g2: "gone i tr0 (runJob_await (job it) (options it) (s\<lparr>queue := q'\<rparr>))"
    by (rule gone_runJob_await)
  then have "gone i tr0 ((runJob_await (job it) (options it) (s\<lparr>queue := q'\<rparr>))
      \<lparr>intervalCount := intervalCount s + 1\<rparr>)"
    by (rule gone_weaken) simp_all
  with g2 show "gone i tr0 (if truthy (intervalCap s)
      then (runJob_await (job it) (options it) (s\<lparr>queue := q'\<rparr>))
             \<lparr>intervalCount := intervalCount s + 1\<rparr>
      else runJob_await (job it) (options it) (s\<lparr>queue := q'\<rparr>))"
    by simp
qed

lemma gone_processNextJobs:
  assumes "gone i tr0 s"
  shows "gone i tr0 (processNextJobs s)"
proof -
  have "gone i tr0 (process_loop s)" using assms by (rule gone_process_loop)
  then show ?thesis
    using assms by (simp add: processNextJobs_def Let_def gone_emit)
qed

lemma gone_runJob_finally:
  assumes "gone i tr0 s"
  shows "gone i tr0 (runJob_finally opts t s)"
proof -
  let ?s2 = "(clearTimeout t s)\<lparr>jobMap := AList.delete (o_id opts) (jobMap (clearTimeout t s)),
      running := running (clearTimeout t s) - 1\<rparr>"
  have g: "gone i tr0 ?s2" using assms by (rule gone_weaken) simp_all
  then have "gone i tr0 (processNextJobs ?s2)" by (rule gone_processNextJobs)
  with g show ?thesis by (simp add: runJob_finally_def Let_def)
qed

lemma gone_runJob_resume:
  assumes "gone i tr0 s" "o_id (a_options a) \<noteq> i"
  shows "gone i tr0 (runJob_resume a out s)"
  using assms
  by (auto simp: runJob_resume_def Let_def gone_emit gone_runJob_finally split: outcome.splits)

lemma job_ids_pq_enqueue [simp]:
  "job_ids (pq_enqueue v p q) = insert (o_id (options v)) (job_ids q)"
  by (auto simp: job_ids_def pq_enqueue_def q_enqueue_def)

lemma job_ids_reprioritize:
  "job_ids (fst (reprioritize i p arr q found)) \<subseteq> job_ids arr \<union> job_ids q"
proof (induction arr arbitrary: q found)
  case Nil
  then show ?case by simp
next
  case (Cons it rest)
  have h: "job_ids (it # rest) = insert (o_id (options (val it))) (job_ids rest)"
    by (simp add: job_ids_def)
  show ?case
    using Cons [of "pq_enqueue ((val it)\<lparr>options := (options (val it))\<lparr>o_priority := p\<rparr>\<rparr>) p q" True]
      Cons [of "pq_enqueue (val it) (priority it) q" found]
    unfolding h by auto
qed

lemma job_ids_remove_job:
  "job_ids (fst (remove_job i arr q found)) \<subseteq> (job_ids arr - {i}) \<union> job_ids q"
proof (induction arr arbitrary: q found)
  case Nil
  then show ?case by simp
next
  case (Cons it rest)
  have h: "job_ids (it # rest) = insert (o_id (options (val it))) (job_ids rest)"
    by (simp add: job_ids_def)
  show ?case
    using Cons [of q True] Cons [of "pq_enqueue (val it) (priority it) q" found]
    unfolding h by auto
qed

lemma job_ids_Nil [simp]: "job_ids [] = {}"
  by (simp add: job_ids_def)


lemma pq_toArray_fst [simp]: "fst (pq_toArray q) = q"
  by (simp add: pq_toArray_def)

lemma gone_setPriority:
  assumes "gone i tr0 s"
  shows "gone i tr0 (fst (setPriority k p s))"
proof -
  have "job_ids (fst (reprioritize k p (queue s) [] False)) \<subseteq> job_ids (queue s)"
    using job_ids_reprioritize [of k p "queue s" "[]" False] by simp
  then have "job_ids (queue (fst (setPriority k p s))) \<subseteq> job_ids (queue s)"
    by (auto simp: setPriority_def pq_toArray_def split: option.splits prod.splits)
  with assms show ?thesis
    by (rule gone_weaken)
       (auto simp: setPriority_def split: option.splits prod.splits)
qed

lemma gone_abort:
  assumes "gone i tr0 s"
  shows "gone i tr0 (fst (abort k r s))"
proof -
  have "job_ids (fst (remove_job k (queue s) [] False)) \<subseteq> job_ids (queue s)"
    using job_ids_remove_job [of k "queue s" "[]" False] by auto
  then have "job_ids (queue (fst (abort k r s))) \<subseteq> job_ids (queue s)"
    by (auto simp: abort_def pq_toArray_def split: option.splits prod.splits)
  with assms show ?thesis
    by (rule gone_weaken)
       (auto simp: abort_def split: option.splits prod.splits)
qed

lemma gone_exec:
  assumes "gone i tr0 s" "\<not> adds i (Op x)"
  shows "gone i tr0 (fst (exec x s))"
proof (cases "isDestroyed s")
  case True
  then show ?thesis using assms(1) by (simp add: exec_destroyed)
next
  case False
  show ?thesis
  proof (cases x)
    case (Add j opts rnd)
    let ?i = "case p_id opts of None \<Rightarrow> rnd | Some x \<Rightarrow> if x = [] then rnd else x"
    let ?p = "case p_priority opts of None \<Rightarrow> 0 | Some n \<Rightarrow> n"
    let ?s2 = "s\<lparr>jobMap := AList.update ?i \<lparr>j_priority = ?p, controller = None, timeoutId = None\<rparr> (jobMap s),
        queue := pq_enqueue \<lparr>ref = nextItem s, job = j,
                    options = \<lparr>o_priority = ?p, o_signal = p_signal opts, o_id = ?i\<rparr>\<rparr>
                   ?p (queue s),
        nextItem := Suc (nextItem s)\<rparr>"
    have ni: "?i \<noteq> i" using assms(2) Add by (simp add: add_id_def)
    then have "gone i tr0 ?s2" using assms(1) by (simp add: gone_def)
    then have g3: "gone i tr0 (emit ADDED (IdData ?i) ?s2)"
      using ni by (simp add: gone_emit)
    then have "gone i tr0 (processNextJobs (emit ADDED (IdData ?i) ?s2))"
      by (rule gone_processNextJobs)
    with g3 show ?thesis using Add False by (simp add: add_def Let_def)
  next
    case Start
    then show ?thesis using assms(1) by (simp add: start_def gone_processNextJobs)
  next
    case Pause
    have "gone i tr0 (s\<lparr>isPaused := True\<rparr>)" using assms(1) by (rule gone_weaken) simp_all
    then show ?thesis using Pause False by (simp add: pause_def gone_emit)
  next
    case Resume
    have "gone i tr0 (s\<lparr>isPaused := False\<rparr>)" using assms(1) by (rule gone_weaken) simp_all
    then have "gone i tr0 (emit RESUMED NoData (s\<lparr>isPaused := False\<rparr>))"
      by (simp add: gone_emit)
    then show ?thesis using Resume False by (simp add: resume_def gone_processNextJobs)
  next
    case Clear
    have "gone i tr0 (clear s)" using assms(1) by (rule gone_weaken) (simp_all add: clear_def)
    then show ?thesis using Clear by simp
  next
    case (SetPriority k p)
    then show ?thesis using gone_setPriority [OF assms(1)] by (simp add: case_prod_beta)
  next
    case (Abort k r)
    then show ?thesis using gone_abort [OF assms(1)] by (simp add: case_prod_beta)
  next
    case (OnEmpty f)
    have "gone i tr0 (on EMPTY (Fn f) s)" using assms(1) by (rule gone_weaken) simp_all
    then have "gone i tr0 (onEmpty f s)"
      by (auto simp: onEmpty_def Let_def gone_def silent_append)
    then show ?thesis using OnEmpty by simp
  next
    case (OnIdle f)
    have "gone i tr0 (on IDLE (Fn f) s)" using assms(1) by (rule gone_weaken) simp_all
    then have "gone i tr0 (onIdle f s)"
      by (auto simp: onIdle_def Let_def gone_def silent_append)
    then show ?thesis using OnIdle by simp
  next
    case (On ev f)
    have "gone i tr0 (on ev (Fn f) s)" using assms(1) by (rule gone_weaken) simp_all
    then show ?thesis using On by simp
  next
    case (Off ev f)
    have "gone i tr0 (off ev (Fn f) s)"
      using assms(1) by (rule gone_weaken) (simp_all add: off_def split: option.splits)
    then show ?thesis using Off by simp
  next
    case (Once ev f)
    have "gone i tr0 (once ev f s)"
      using assms(1) by (rule gone_weaken) (simp_all add: once_def)
    then show ?thesis using Once by simp
  next
    case (RemoveAllListeners evo)
    have "gone i tr0 (removeAllListeners evo s)"
      using assms(1)
      by (rule gone_weaken) (simp_all add: removeAllListeners_def split: option.splits)
    then show ?thesis using RemoveAllListeners by simp
  next
    case Destroy
    have "gone i tr0 (destroy s)"
      using assms(1) by (rule gone_weaken) (simp_all add: destroy_def Let_def)
    then show ?thesis using Destroy by simp
  qed (use assms in simp_all)
qed

lemma gone_do_step:
  assumes "gone i tr0 s" "\<not> adds i st"
  shows "gone i tr0 (do_step st s)"
proof (cases st)
  case (Op x)
  then show ?thesis using gone_exec [OF assms(1), of x] assms(2) by simp
next
  case Tick
  have "gone i tr0 (s\<lparr>intervalCount := 0\<rparr>)" using assms(1) by (rule gone_weaken) simp_all
  then have "gone i tr0 (processNextJobs (s\<lparr>intervalCount := 0\<rparr>))"
    by (rule gone_processNextJobs)
  moreover have "gone i tr0 (s\<lparr>intervalId := False\<rparr>)"
    using assms(1) by (rule gone_weaken) simp_all
  ultimately show ?thesis using Tick assms(1) by (simp add: interval_tick_def)
next
  case (TimeoutFires t)
  have "gone i tr0 (timeout_fire t s)"
    using assms(1) by (rule gone_weaken) (simp_all add: timeout_fire_def split: option.splits)
  then show ?thesis using TimeoutFires by simp
next
  case (SignalAborts k r)
  have "gone i tr0 (signal_abort k r s)" using assms(1) by (rule gone_weaken) simp_all
  then show ?thesis using SignalAborts by simp
next
  case (Settles k out)
  show ?thesis
  proof (cases "find (\<lambda>a. a_controller a = k) (inflight s)")
    case None
    then show ?thesis using Settles assms(1) by (simp add: settle_def)
  next
    case (Some a)
    then have "a \<in> set (inflight s)" by (auto simp: find_Some_iff)
    then have "o_id (a_options a) \<noteq> i"
      using assms(1) by (auto simp: gone_def running_ids_def)
    moreover have "gone i tr0 (s\<lparr>inflight := filter (\<lambda>a. a_controller a \<noteq> k) (inflight s)\<rparr>)"
      using assms(1) by (rule gone_weaken) (auto simp: running_ids_def)
    ultimately show ?thesis
      using Settles Some by (simp add: settle_def gone_runJob_resume)
  qed
qed

lemma gone_run:
  "gone i tr0 s \<Longrightarrow> \<forall>st \<in> set steps. \<not> adds i st \<Longrightarrow> gone i tr0 (run steps s)"
  unfolding run_def
  by (induction steps arbitrary: s) (simp_all add: gone_do_step)

lemma abort_pending_gone:
  assumes "map_of (jobMap s) i = Some info" "controller info = None"
    and "i \<notin> running_ids (inflight s)"
    and "abort i r s = (s', True)"
  shows "gone i (trace s) s'"
proof -
  have nd: "\<not> isDestroyed s" using assms(4) by (auto simp: abort_def)
  obtain q' found where rj: "remove_job i (queue s) [] False = (q', found)"
    by (cases "remove_job i (queue s) [] False") auto
  have "job_ids q' \<subseteq> job_ids (queue s) - {i}"
    using job_ids_remove_job [of i "queue s" "[]" False] rj by simp
  then have a: "i \<notin> job_ids q'" by auto
  have s': "s' = s\<lparr>queue := q', jobMap := AList.delete i (jobMap s)\<rparr>"
    using assms(1,2,4) nd rj
    by (auto simp: abort_def pq_toArray_def split: if_splits)
  show ?thesis
    unfolding s' using a assms(3) by (simp add: gone_def silent_refl)
qed

text \<open>
  C8, as the code has it. The job under the id \<open>i\<close> is pending (its registry entry
  has no controller), no running job was submitted under the same id, and \<open>abort(i)\<close>
  returns \<open>true\<close>. Then, as long as no job is added under the id \<open>i\<close> again, nothing
  happens under that id: the job is never called, no event carries the id (so
  \<open>NEXT\<close>, \<open>COMPLETED\<close> and \<open>ERROR\<close> never fire for it), and no activation has it.
\<close>

theorem aborted_pending_job_never_runs:
  assumes "map_of (jobMap s) i = Some info" "controller info = None"
    and "\<forall>a \<in> set (inflight s). o_id (a_options a) \<noteq> i"
    and "abort i r s = (s', True)"
    and "\<forall>st \<in> set steps. \<not> adds i st"
  shows "(\<exists>ext. trace (run steps s') = trace s @ ext \<and> (\<forall>e \<in> set ext. \<not> about i e))
    \<and> (\<forall>a \<in> set (inflight (run steps s')). o_id (a_options a) \<noteq> i)
    \<and> (\<forall>it \<in> set (queue (run steps s')). o_id (options (val it)) \<noteq> i)"
proof -
  have "i \<notin> running_ids (inflight s)" using assms(3) by (auto simp: running_ids_def)
  then have "gone i (trace s) s'" using assms(1,2,4) by (simp add: abort_pending_gone)
  then have "gone i (trace s) (run steps s')" using assms(5) by (rule gone_run)
  then show ?thesis
    unfolding gone_def silent_def running_ids_def job_ids_def by auto
qed



text \<open>
  Two schedulers with the concurrency limit 1. In \<open>two_jobs\<close> the job \<open>a\<close> runs and
  the job \<open>b\<close> is pending. In \<open>twins\<close> two jobs were added under the id \<open>x\<close>: the first
  runs, the second is pending, and the registry entry \<open>x\<close> was overwritten by the
  second \<open>add\<close>, so it has no controller. In \<open>held\<close> the scheduler is paused and one job
  \<open>x\<close> is pending.
\<close>

definition two_jobs :: jq where
  "two_jobs = run [Op (Add 0 (named ''a'') ''r''), Op (Add 1 (named ''b'') ''r'')]
                (new_JobQueue (limit 1))"

definition twins :: jq where
  "twins = run [Op (Add 0 (named ''x'') ''r''), Op (Add 1 (named ''x'') ''r'')]
             (new_JobQueue (limit 1))"

definition held :: jq where
  "held = run [Op Pause, Op (Add 0 (named ''x'') ''r'')] (new_JobQueue (limit 1))"

theorem aborted_pending_job_never_runs_witness:
  "snd (abort ''b'' None two_jobs) = True
   \<and> trace (run [Settles 0 Resolved] (fst (abort ''b'' None two_jobs)))
       = trace two_jobs
           @ [Emit COMPLETED (IdData ''a''), Emit EMPTY NoData, Emit IDLE NoData]
   \<and> (\<exists>ext. trace (run [Settles 0 Resolved] (fst (abort ''b'' None two_jobs)))
               = trace two_jobs @ ext
           \<and> (\<forall>e \<in> set ext. \<not> about ''b'' e))"
proof -
  have h1: "map_of (jobMap two_jobs) ''b''
      = Some \<lparr>j_priority = 0, controller = None, timeoutId = None\<rparr>"
    by code_simp
  have h2: "controller \<lparr>j_priority = 0, controller = None, timeoutId = None\<rparr> = None"
    by simp
  have h3: "\<forall>a \<in> set (inflight two_jobs). o_id (a_options a) \<noteq> ''b''"
    by code_simp
  have v1: "snd (abort ''b'' None two_jobs) = True" by code_simp
  then have h4: "abort ''b'' None two_jobs = (fst (abort ''b'' None two_jobs), True)"
    by (simp add: prod_eq_iff)
  have h5: "\<forall>st \<in> set [Settles 0 Resolved]. \<not> adds ''b'' st" by simp
  have v2: "trace (run [Settles 0 Resolved] (fst (abort ''b'' None two_jobs)))
       = trace two_jobs
           @ [Emit COMPLETED (IdData ''a''), Emit EMPTY NoData, Emit IDLE NoData]"
    by code_simp
  note t = aborted_pending_job_never_runs [OF h1 h2 h3 h4 h5]
  show ?thesis using v1 v2 t [THEN conjunct1] by (intro conjI)
qed

text \<open>
  C8, as the claim has it, fails in two ways. In \<open>twins\<close> the entry \<open>x\<close> is pending and
  \<open>abort('x')\<close> returns \<open>true\<close>, but the running job of the same id then completes and
  \<open>COMPLETED\<close> fires for \<open>x\<close>. In \<open>held\<close> the pending job \<open>x\<close> is aborted; a job added
  under \<open>x\<close> afterwards is called and completes.
\<close>

theorem event_fires_for_aborted_id:
  "map_of (jobMap twins) ''x'' = Some \<lparr>j_priority = 0, controller = None, timeoutId = None\<rparr>
   \<and> snd (abort ''x'' None twins) = True
   \<and> trace (run [Settles 0 Resolved] (fst (abort ''x'' None twins)))
       = trace twins
           @ [Emit COMPLETED (IdData ''x''), Emit EMPTY NoData, Emit IDLE NoData]
   \<and> map_of (jobMap held) ''x'' = Some \<lparr>j_priority = 0, controller = None, timeoutId = None\<rparr>
   \<and> snd (abort ''x'' None held) = True
   \<and> trace (run [Op (Add 1 (named ''x'') ''r''), Op Resume, Settles 0 Resolved]
               (fst (abort ''x'' None held)))
       = trace held
           @ [Emit ADDED (IdData ''x''), Emit RESUMED NoData, Emit NEXT (IdData ''x''),
              Run ''x'' 1 0, Emit EMPTY NoData, Emit COMPLETED (IdData ''x''),
              Emit EMPTY NoData, Emit IDLE NoData]"
  by code_simp



section \<open>Listeners that register listeners during an emission\<close>

text \<open>
  The scheduler above takes the functions of the caller as observers. A listener is a
  function of the caller and may itself call \<open>on\<close> while \<open>emit\<close> walks the listener
  array. This section models \<open>emit\<close> and \<open>on\<close> (the fields \<open>isDestroyed\<close> and
  \<open>eventListeners\<close>) with such listeners. A listener is named by a number; \<open>beh f\<close> is
  the list of the calls \<open>on(event, listener)\<close> that the function \<open>f\<close> makes when it is
  called. \<open>e_calls\<close> records the calls \<open>listener(data)\<close>.
\<close>

record emitter =
  e_isDestroyed :: bool
  e_listeners :: "JobQueueEvent \<Rightarrow> nat list option"
  e_calls :: "(nat \<times> payload) list"

definition live_on :: "JobQueueEvent \<Rightarrow> nat \<Rightarrow> emitter \<Rightarrow> emitter" where
  "live_on ev l s =
     (if e_isDestroyed s then s
      else (case e_listeners s ev of
              None \<Rightarrow> s\<lparr>e_listeners := (e_listeners s)(ev := Some [l])\<rparr>
            | Some ls \<Rightarrow> s\<lparr>e_listeners := (e_listeners s)(ev := Some (ls @ [l]))\<rparr>))"

definition invoke :: "(nat \<Rightarrow> (JobQueueEvent \<times> nat) list) \<Rightarrow> nat \<Rightarrow> payload \<Rightarrow> emitter \<Rightarrow> emitter" where
  "invoke beh f d s =
     fold (\<lambda>(ev, l) acc. live_on ev l acc) (beh f) (s\<lparr>e_calls := e_calls s @ [(f, d)]\<rparr>)"

definition listeners_of :: "emitter \<Rightarrow> JobQueueEvent \<Rightarrow> nat list" where
  "listeners_of s ev = (case e_listeners s ev of None \<Rightarrow> [] | Some ls \<Rightarrow> ls)"

text \<open>
  The loop \<open>for (const listener of listeners)\<close>, with the index \<open>i\<close> of the array
  iterator. The array can grow without end (a listener that registers itself), so the
  loop has fuel: \<open>None\<close> says that the fuel did not suffice.
\<close>

fun live_loop ::
  "(nat \<Rightarrow> (JobQueueEvent \<times> nat) list) \<Rightarrow> nat \<Rightarrow> JobQueueEvent \<Rightarrow> payload \<Rightarrow> nat
    \<Rightarrow> emitter \<Rightarrow> emitter option" where
  "live_loop beh 0 ev d i s = (if i < length (listeners_of s ev) then None else Some s)"
| "live_loop beh (Suc n) ev d i s =
     (if i < length (listeners_of s ev)
      then live_loop beh n ev d (Suc i) (invoke beh (listeners_of s ev ! i) d s)
      else Some s)"

definition live_emit ::
  "(nat \<Rightarrow> (JobQueueEvent \<times> nat) list) \<Rightarrow> nat \<Rightarrow> JobQueueEvent \<Rightarrow> payload
    \<Rightarrow> emitter \<Rightarrow> emitter option" where
  "live_emit beh n ev d s =
     (if e_isDestroyed s then Some s
      else (case e_listeners s ev of
              None \<Rightarrow> Some s
            | Some ls \<Rightarrow> live_loop beh n ev d 0 s))"

text \<open>The listeners that the function \<open>f\<close> registers for the event \<open>ev\<close>.\<close>

definition added :: "(nat \<Rightarrow> (JobQueueEvent \<times> nat) list) \<Rightarrow> JobQueueEvent \<Rightarrow> nat \<Rightarrow> nat list" where
  "added beh ev f = map snd (filter (\<lambda>(ev', l). ev' = ev) (beh f))"

lemma fold_live_on:
  assumes "\<not> e_isDestroyed s" "e_listeners s ev = Some arr"
  shows "\<not> e_isDestroyed (fold (\<lambda>(ev, l) acc. live_on ev l acc) body s)
    \<and> e_calls (fold (\<lambda>(ev, l) acc. live_on ev l acc) body s) = e_calls s
    \<and> e_listeners (fold (\<lambda>(ev, l) acc. live_on ev l acc) body s) ev
        = Some (arr @ map snd (filter (\<lambda>(ev', l). ev' = ev) body))"
  using assms
proof (induction body arbitrary: s arr)
  case Nil
  then show ?case by simp
next
  case (Cons a body)
  obtain ev' l where a: "a = (ev', l)" by (cases a)
  let ?s1 = "live_on ev' l s"
  have d: "\<not> e_isDestroyed ?s1" and c: "e_calls ?s1 = e_calls s"
    using Cons.prems(1) by (simp_all add: live_on_def split: option.splits)
  show ?case
  proof (cases "ev' = ev")
    case True
    have "e_listeners ?s1 ev = Some (arr @ [l])"
      using Cons.prems True by (simp add: live_on_def)
    from Cons.IH [OF d this] show ?thesis using a c True by simp
  next
    case False
    have "e_listeners ?s1 ev = Some arr"
      using Cons.prems False by (simp add: live_on_def split: option.splits)
    from Cons.IH [OF d this] show ?thesis using a c False by simp
  qed
qed

lemma invoke_effect:
  assumes "\<not> e_isDestroyed s" "e_listeners s ev = Some arr"
  shows "\<not> e_isDestroyed (invoke beh f d s)"
    and "e_calls (invoke beh f d s) = e_calls s @ [(f, d)]"
    and "e_listeners (invoke beh f d s) ev = Some (arr @ added beh ev f)"
  using fold_live_on [of "s\<lparr>e_calls := e_calls s @ [(f, d)]\<rparr>" ev arr "beh f"] assms
  by (simp_all add: invoke_def added_def)

text \<open>The second part of an emission: listeners that register nothing.\<close>

lemma live_loop_quiet:
  assumes "\<not> e_isDestroyed s" "e_listeners s ev = Some (pre @ acc)"
    "\<forall>g \<in> set acc. beh g = []" "length acc \<le> n"
  shows "\<exists>s'. live_loop beh n ev d (length pre) s = Some s'
    \<and> e_calls s' = e_calls s @ map (\<lambda>g. (g, d)) acc"
  using assms
proof (induction acc arbitrary: s pre n)
  case Nil
  then show ?case by (cases n) (simp_all add: listeners_of_def)
next
  case (Cons g acc)
  obtain m where n: "n = Suc m" using Cons.prems(4) by (cases n) auto
  let ?s1 = "invoke beh g d s"
  have q: "added beh ev g = []" using Cons.prems(3) by (simp add: added_def)
  have l1: "e_listeners ?s1 ev = Some ((pre @ [g]) @ acc)"
    using invoke_effect(3) [OF Cons.prems(1,2), of beh g d] q by simp
  have d1: "\<not> e_isDestroyed ?s1" using invoke_effect(1) [OF Cons.prems(1,2)] .
  have c1: "e_calls ?s1 = e_calls s @ [(g, d)]" using invoke_effect(2) [OF Cons.prems(1,2)] .
  from Cons.IH [OF d1 l1, of m] Cons.prems(3,4) n
  obtain s' where "live_loop beh m ev d (length (pre @ [g])) ?s1 = Some s'"
    and "e_calls s' = e_calls ?s1 @ map (\<lambda>g. (g, d)) acc"
    by auto
  then show ?case
    using n c1 Cons.prems(2) by (simp add: listeners_of_def nth_append)
qed

text \<open>
  The first part: listeners that register listeners of the second kind. \<open>rest\<close> are
  the listeners of the first kind that are still to be called, \<open>acc\<close> the listeners
  that were added so far.
\<close>

lemma live_loop_registering:
  assumes "\<not> e_isDestroyed s" "e_listeners s ev = Some (pre @ rest @ acc)"
    "\<forall>f \<in> set rest. \<forall>g \<in> snd ` set (beh f). beh g = []"
    "\<forall>g \<in> set acc. beh g = []"
    "length rest + length acc + length (concat (map (added beh ev) rest)) \<le> n"
  shows "\<exists>s'. live_loop beh n ev d (length pre) s = Some s'
    \<and> e_calls s' = e_calls s @ map (\<lambda>g. (g, d)) (rest @ acc @ concat (map (added beh ev) rest))"
  using assms
proof (induction rest arbitrary: s pre acc n)
  case Nil
  then show ?case using live_loop_quiet [of s ev pre acc beh n d] by simp
next
  case (Cons f rest)
  obtain m where n: "n = Suc m" using Cons.prems(5) by (cases n) auto
  let ?s1 = "invoke beh f d s"
  have l1: "e_listeners ?s1 ev = Some ((pre @ [f]) @ rest @ (acc @ added beh ev f))"
    using invoke_effect(3) [OF Cons.prems(1,2), of beh f d] by simp
  have d1: "\<not> e_isDestroyed ?s1" using invoke_effect(1) [OF Cons.prems(1,2)] .
  have c1: "e_calls ?s1 = e_calls s @ [(f, d)]" using invoke_effect(2) [OF Cons.prems(1,2)] .
  have q: "\<forall>g \<in> set (acc @ added beh ev f). beh g = []"
    using Cons.prems(3,4) by (auto simp: added_def)
  have r: "\<forall>f \<in> set rest. \<forall>g \<in> snd ` set (beh f). beh g = []"
    using Cons.prems(3) by simp
  have b: "length rest + length (acc @ added beh ev f)
      + length (concat (map (added beh ev) rest)) \<le> m"
    using Cons.prems(5) n by simp
  from Cons.IH [OF d1 l1 r q b]
  obtain s' where "live_loop beh m ev d (length (pre @ [f])) ?s1 = Some s'"
    and "e_calls s' = e_calls ?s1
        @ map (\<lambda>g. (g, d)) (rest @ (acc @ added beh ev f) @ concat (map (added beh ev) rest))"
    by blast
  then show ?case
    using n c1 Cons.prems(2) by (simp add: listeners_of_def nth_append)
qed





text \<open>
  An emitter with one listener for \<open>ADDED\<close>, the function \<open>1\<close>, which registers the
  function \<open>2\<close> for \<open>ADDED\<close> when it is called.
\<close>

definition adder :: "nat \<Rightarrow> (JobQueueEvent \<times> nat) list" where
  "adder f = (if f = 1 then [(ADDED, 2)] else [])"

definition one_listener :: emitter where
  "one_listener =
     live_on ADDED 1 \<lparr>e_isDestroyed = False, e_listeners = (\<lambda>_. None), e_calls = []\<rparr>"





end
